theory Spec2Isabelle
  imports Main "HOL-Library.Word"
begin

unbundle bit_operations_syntax

section \<open>Buffers and nibble utilities\<close>

text \<open>
  A Node.js \<^verbatim>\<open>Buffer\<close> is an array of bytes. Keys, values, digests and nibble
  paths are all Buffers in \<^verbatim>\<open>lib/trie.js\<close>; a nibble path is a Buffer whose
  entries are 0..15, or 16 for the terminator.
\<close>

type_synonym byte = "8 word"

type_synonym bytes = "byte list"

type_synonym nibbles = "byte list"

text \<open>
  Modelled from the spec: \<^verbatim>\<open>toNibbles\<close> of \<^verbatim>\<open>lib/common.js\<close>, which is not
  among the sources. Section 4.1 gives two nibbles per byte, high nibble first. The
  terminator 16 is appended: scenario S2 has \<^verbatim>\<open>insert(0xAABB, 0x01)\<close> on an empty
  trie produce \<^verbatim>\<open>Short([0xA,0xA,0xB,0xB,16], Value(0x01))\<close>, and the Null case of
  \<^verbatim>\<open>_insert\<close> stores \<^verbatim>\<open>key.slice(pos)\<close> of the nibble key unchanged, so the
  terminator is already part of what \<^verbatim>\<open>toNibbles\<close> returns.
\<close>

fun nibs :: "bytes \<Rightarrow> nibbles" where
  "nibs [] = []"
| "nibs (b # bs) = drop_bit 4 b # (b AND 15) # nibs bs"

definition toNibbles :: "bytes \<Rightarrow> nibbles" where
  "toNibbles str = nibs str @ [16]"

text \<open>
  Modelled from the spec: \<^verbatim>\<open>prefixLen\<close>, \<^verbatim>\<open>startsWith\<close>, \<^verbatim>\<open>concat\<close> and
  \<^verbatim>\<open>byte\<close> of \<^verbatim>\<open>lib/common.js\<close> (section 4.1). \<^verbatim>\<open>prefix_len(a, b, off)\<close> is
  the length of the longest common prefix of \<^verbatim>\<open>a[off:]\<close> and \<^verbatim>\<open>b\<close>;
  \<^verbatim>\<open>starts_with(key, prefix, off)\<close> holds iff \<^verbatim>\<open>len(key) - off \<ge> len(prefix)\<close> and the
  next \<^verbatim>\<open>len(prefix)\<close> nibbles match.
\<close>

fun common_len :: "byte list \<Rightarrow> byte list \<Rightarrow> nat" where
  "common_len (x # xs) (y # ys) = (if x = y then Suc (common_len xs ys) else 0)"
| "common_len _ _ = 0"

definition prefixLen :: "nibbles \<Rightarrow> nibbles \<Rightarrow> nat \<Rightarrow> nat" where
  "prefixLen a b off = common_len (drop off a) b"

definition startsWith :: "nibbles \<Rightarrow> nibbles \<Rightarrow> nat \<Rightarrow> bool" where
  "startsWith k p off \<longleftrightarrow> off + length p \<le> length k \<and> take (length p) (drop off k) = p"

definition concat_buf :: "nibbles \<Rightarrow> nibbles \<Rightarrow> nibbles" where
  "concat_buf a b = a @ b"

definition byte :: "int \<Rightarrow> nibbles" where
  "byte i = [word_of_int i]"

text \<open>\<^verbatim>\<open>Buffer.prototype.slice(start, end)\<close> and \<^verbatim>\<open>slice(start)\<close>; both clamp.\<close>

definition slice_buf :: "nibbles \<Rightarrow> nat \<Rightarrow> nat \<Rightarrow> nibbles" where
  "slice_buf k s e = take (e - s) (drop s k)"

definition slice_from :: "nibbles \<Rightarrow> nat \<Rightarrow> nibbles" where
  "slice_from k s = drop s k"

section \<open>Errors\<close>

text \<open>
  A JavaScript value as far as the error constructor reads one: \<^verbatim>\<open>undefined\<close>, a
  Buffer or a number. An object is its property table; a property that was never
  set reads \<^verbatim>\<open>undefined\<close>.
\<close>

datatype jsval = Undef | Buf bytes | Num nat

datatype propname = P_size | P_rootHash | P_nodeHash | P_key | P_pos

type_synonym jsobject = "propname \<Rightarrow> jsval"

definition empty_object :: jsobject where
  "empty_object = (\<lambda>_. Undef)"

fun truthy :: "jsval \<Rightarrow> bool" where
  "truthy Undef = False"
| "truthy (Buf _) = True"
| "truthy (Num n) = (n \<noteq> 0)"

text \<open>\<^verbatim>\<open>a || b\<close>.\<close>

definition js_or :: "jsval \<Rightarrow> jsval \<Rightarrow> jsval" where
  "js_or a b = (if truthy a then a else b)"

text \<open>\<^verbatim>\<open>x >>> 0\<close> for \<^verbatim>\<open>undefined\<close> and for a non-negative integer.\<close>

fun to_uint32 :: "jsval \<Rightarrow> nat" where
  "to_uint32 (Num n) = n mod 2 ^ 32"
| "to_uint32 _ = 0"

record MissingNodeError =
  e_rootHash :: jsval
  e_nodeHash :: jsval
  e_key :: "bytes option"
  e_pos :: nat

datatype error =
    AssertionError
  | TypeError
  | RangeError
  | Error string
  | MissingNode MissingNodeError
  | CodecError

text \<open>
  Modelled from the spec: \<^verbatim>\<open>fromNibbles\<close> of \<^verbatim>\<open>lib/common.js\<close> (section 4.1): a
  final terminator is dropped, then the nibbles are packed two per byte; a sequence
  of odd length is illegal.
\<close>

fun pack :: "nibbles \<Rightarrow> error + bytes" where
  "pack [] = Inr []"
| "pack [h] = Inl AssertionError"
| "pack (h # l # r) =
     (case pack r of Inl e \<Rightarrow> Inl e | Inr bs \<Rightarrow> Inr ((push_bit 4 h OR l) # bs))"

definition fromNibbles :: "nibbles \<Rightarrow> error + bytes" where
  "fromNibbles k = (if k \<noteq> [] \<and> last k = 16 then pack (butlast k) else pack k)"

text \<open>
  \<^verbatim>\<open>MissingNodeError.constructor(hash, options = {})\<close> of \<^verbatim>\<open>lib/errors.js\<close>. The
  second argument is optional. The fields \<^verbatim>\<open>rootHash\<close>, \<^verbatim>\<open>nodeHash\<close>, \<^verbatim>\<open>key\<close> and
  \<^verbatim>\<open>pos\<close> of the error object are \<open>e_rootHash\<close>, \<open>e_nodeHash\<close>, \<open>e_key\<close> and
  \<open>e_pos\<close>; \<^verbatim>\<open>options.key\<close>, when given, is a nibble Buffer. The template string of
  the message calls \<^verbatim>\<open>this.nodeHash.toString('hex')\<close>: on \<^verbatim>\<open>undefined\<close> that is a
  TypeError, on a number a RangeError (the radix \<^verbatim>\<open>'hex'\<close>), on a Buffer the hex
  string.
\<close>

definition MissingNodeError_new :: "jsobject \<Rightarrow> jsobject option \<Rightarrow> error + MissingNodeError" where
  "MissingNodeError_new hash opts =
     (let options = (case opts of None \<Rightarrow> empty_object | Some ob \<Rightarrow> ob);
          rh = js_or (options P_rootHash) (hash P_size);
          nh = js_or (options P_nodeHash) (hash P_size)
      in case (case options P_key of Buf k \<Rightarrow> map_sum id Some (fromNibbles k)
                                     | _ \<Rightarrow> Inr None) of
           Inl e \<Rightarrow> Inl e
         | Inr ky \<Rightarrow>
             (case nh of
                Undef \<Rightarrow> Inl TypeError
              | Num _ \<Rightarrow> Inl RangeError
              | Buf _ \<Rightarrow> Inr \<lparr>e_rootHash = rh, e_nodeHash = nh, e_key = ky,
                                e_pos = to_uint32 (options P_pos)\<rparr>))"

section \<open>Nodes\<close>

text \<open>
  Modelled from the spec: the node classes of \<^verbatim>\<open>lib/nodes.js\<close>, which is not among
  the sources (section 3): the flags \<^verbatim>\<open>{hash, dirty, gen}\<close> of Short and Full, and
  the five variants. \<^verbatim>\<open>new NodeFlags(gen, dirty)\<close> starts with no cached hash.
  \<^verbatim>\<open>Undefined\<close> is what reading a missing array slot gives in JavaScript; it is
  not a node, and every use of it as one throws.
\<close>

record NodeFlags =
  fl_hash :: "bytes option"
  fl_dirty :: bool
  fl_gen :: nat

datatype node =
    NIL
  | HashNode bytes
  | ShortNode nibbles node NodeFlags
  | FullNode "node list" NodeFlags
  | ValueNode bytes
  | Undefined

fun isNull :: "node \<Rightarrow> bool" where
  "isNull NIL = True"
| "isNull _ = False"

fun isValue :: "node \<Rightarrow> bool" where
  "isValue (ValueNode _) = True"
| "isValue _ = False"

fun isShort :: "node \<Rightarrow> bool" where
  "isShort (ShortNode _ _ _) = True"
| "isShort _ = False"

fun isHash :: "node \<Rightarrow> bool" where
  "isHash (HashNode _) = True"
| "isHash _ = False"

text \<open>\<^verbatim>\<open>n.data\<close>: Value and Hash nodes have it; on the others it reads \<^verbatim>\<open>undefined\<close>.\<close>

fun node_data :: "node \<Rightarrow> bytes option" where
  "node_data (ValueNode d) = Some d"
| "node_data (HashNode d) = Some d"
| "node_data _ = None"

text \<open>
  \<^verbatim>\<open>children[i]\<close> and \<^verbatim>\<open>children[i] = v\<close> on a JavaScript array: a read past the
  end gives \<^verbatim>\<open>undefined\<close>, a write past the end extends the array, leaving holes.
  \<^verbatim>\<open>key[pos]\<close> past the end of a Buffer is \<^verbatim>\<open>undefined\<close>, and
  \<^verbatim>\<open>children[undefined]\<close> is \<^verbatim>\<open>undefined\<close> again.
\<close>

definition child_at :: "node list \<Rightarrow> nat \<Rightarrow> node" where
  "child_at cs i = (if i < length cs then cs ! i else Undefined)"

definition set_child :: "node list \<Rightarrow> nat \<Rightarrow> node \<Rightarrow> node list" where
  "set_child cs i v =
     (if i < length cs then cs[i := v]
      else cs @ replicate (i - length cs) Undefined @ [v])"

definition child_by_key :: "node list \<Rightarrow> nibbles \<Rightarrow> nat \<Rightarrow> node" where
  "child_by_key cs k p = (if p < length k then child_at cs (unat (k ! p)) else Undefined)"

definition set_child_by_key :: "node list \<Rightarrow> nibbles \<Rightarrow> nat \<Rightarrow> node \<Rightarrow> node list" where
  "set_child_by_key cs k p v = (if p < length k then set_child cs (unat (k ! p)) v else cs)"

section \<open>The trie\<close>

text \<open>
  Modelled from the spec: the collaborators of section 6. The hash object has a
  digest width and a digest function; the store is a map from byte keys to byte
  values, with \<^verbatim>\<open>has(k)\<close> true where \<^verbatim>\<open>get(k)\<close> is present; \<^verbatim>\<open>decodeNode\<close> of the
  codec is a parameter of every operation that resolves a hash.
\<close>

record hashT =
  hash_size :: nat
  hash_digest :: "bytes \<Rightarrow> bytes"

type_synonym store = "bytes \<Rightarrow> bytes option"

type_synonym decoder = "bytes \<Rightarrow> hashT \<Rightarrow> error + node"

record Trie =
  hash :: hashT
  emptyRoot :: bytes
  db :: "store option"
  originalRoot :: bytes
  root :: node
  cacheGen :: nat
  cacheLimit :: nat

definition STATE_KEY :: bytes where
  "STATE_KEY = [0x73]"

definition flags :: "Trie \<Rightarrow> NodeFlags" where
  "flags t = \<lparr>fl_hash = None, fl_dirty = True, fl_gen = cacheGen t\<rparr>"

definition hashNode :: "Trie \<Rightarrow> bytes \<Rightarrow> node" where
  "hashNode t r = HashNode r"

definition shortNode :: "Trie \<Rightarrow> nibbles \<Rightarrow> node \<Rightarrow> node" where
  "shortNode t k v = ShortNode k v (flags t)"

definition fullNode :: "Trie \<Rightarrow> node" where
  "fullNode t = FullNode (replicate 17 NIL) (flags t)"

definition valueNode :: "Trie \<Rightarrow> bytes \<Rightarrow> node" where
  "valueNode t v = ValueNode v"

text \<open>
  \<^verbatim>\<open>Trie.resolveHash(n, key, pos)\<close>. The error is built by
  \<^verbatim>\<open>new MissingNodeError({rootHash, nodeHash, key, pos})\<close>: one argument, the object
  literal, so it binds to the constructor's first parameter and the second takes
  its default. The trie calls \<^verbatim>\<open>resolveHash\<close> on Hash nodes only; on a node without
  \<^verbatim>\<open>data\<close> the store would be asked for \<^verbatim>\<open>undefined\<close>, which is modelled as a
  TypeError.
\<close>

definition resolveHash :: "decoder \<Rightarrow> Trie \<Rightarrow> node \<Rightarrow> nibbles \<Rightarrow> nat \<Rightarrow> error + node" where
  "resolveHash dec t n k p =
     (case db t of
        None \<Rightarrow> Inl (Error ''Cannot resolve hash without database.'')
      | Some st \<Rightarrow>
          (case node_data n of
             None \<Rightarrow> Inl TypeError
           | Some d \<Rightarrow>
               (case st d of
                  None \<Rightarrow>
                    (case MissingNodeError_new
                            (empty_object(P_rootHash := Buf (originalRoot t),
                                          P_nodeHash := Buf d,
                                          P_key := Buf k,
                                          P_pos := Num p)) None of
                       Inl e \<Rightarrow> Inl e
                     | Inr m \<Rightarrow> Inl (MissingNode m))
                | Some raw \<Rightarrow> dec raw (hash t))))"

text \<open>\<^verbatim>\<open>Trie.resolve(n, key, index)\<close>.\<close>

definition resolve :: "decoder \<Rightarrow> Trie \<Rightarrow> node \<Rightarrow> nibbles \<Rightarrow> int \<Rightarrow> error + node" where
  "resolve dec t n k index =
     (case n of
        Undefined \<Rightarrow> Inl TypeError
      | HashNode _ \<Rightarrow> resolveHash dec t n (concat_buf k (byte index)) (length k)
      | _ \<Rightarrow> Inr n)"

section \<open>The recursive walks\<close>

text \<open>
  The walks are \<^verbatim>\<open>async\<close> recursive methods. Resolving a Hash node continues on
  whatever the store decodes to, so a walk need not return (a store entry may
  decode to a Hash of its own digest). Each resolution that is followed by a
  recursive call spends one unit of \<open>fuel\<close>; \<open>None\<close> is a walk that did not
  return within the fuel. A thrown error is \<open>Some (Inl e)\<close>. \<open>u_get\<close>, \<open>u_insert\<close>
  and \<open>u_remove\<close> are \<^verbatim>\<open>Trie._get\<close>, \<^verbatim>\<open>Trie._insert\<close> and \<^verbatim>\<open>Trie._remove\<close>.

  \<^verbatim>\<open>Trie._get(n, key, pos)\<close> returns \<^verbatim>\<open>[val, node, resolved]\<close>; \<^verbatim>\<open>null\<close> is
  \<open>None\<close>. \<^verbatim>\<open>clone()\<close> of \<^verbatim>\<open>lib/nodes.js\<close> is modelled from the spec (section 4.2):
  a copy with the same key, children and flags.
\<close>

function u_get ::
  "decoder \<Rightarrow> Trie \<Rightarrow> nat \<Rightarrow> node \<Rightarrow> nibbles \<Rightarrow> nat \<Rightarrow>
     (error + (bytes option \<times> node \<times> bool)) option" where
  "u_get dec t fuel n k p =
     (if \<not> p \<le> length k then Some (Inl AssertionError)
      else case n of
        NIL \<Rightarrow> Some (Inr (None, NIL, False))
      | ValueNode d \<Rightarrow> Some (Inr (Some d, n, False))
      | ShortNode nk v fl \<Rightarrow>
          if \<not> startsWith k nk p then Some (Inr (None, n, False))
          else (case u_get dec t fuel v k (p + length nk) of
                  None \<Rightarrow> None
                | Some (Inl e) \<Rightarrow> Some (Inl e)
                | Some (Inr (val, nn, res)) \<Rightarrow>
                    Some (Inr (val, if res then ShortNode nk nn fl else n, res)))
      | FullNode cs fl \<Rightarrow>
          (case u_get dec t fuel (child_by_key cs k p) k (p + 1) of
             None \<Rightarrow> None
           | Some (Inl e) \<Rightarrow> Some (Inl e)
           | Some (Inr (val, nn, res)) \<Rightarrow>
               Some (Inr (val, if res then FullNode (set_child_by_key cs k p nn) fl else n, res)))
      | HashNode d \<Rightarrow>
          (case resolveHash dec t n k p of
             Inl e \<Rightarrow> Some (Inl e)
           | Inr child \<Rightarrow>
               (case fuel of
                  0 \<Rightarrow> None
                | Suc f \<Rightarrow>
                    (case u_get dec t f child k p of
                       None \<Rightarrow> None
                     | Some (Inl e) \<Rightarrow> Some (Inl e)
                     | Some (Inr (val, nn, res)) \<Rightarrow> Some (Inr (val, nn, True)))))
      | Undefined \<Rightarrow> Some (Inl TypeError))"
  by pat_completeness auto

termination u_get
  by (relation "measures [\<lambda>(dec, t, fuel, n, k, p). fuel, \<lambda>(dec, t, fuel, n, k, p). size n]")
     (auto simp: child_by_key_def child_at_def less_Suc_eq_le
        intro: order_trans[OF _ size_list_estimation'[OF nth_mem]])

declare u_get.simps [simp del]

text \<open>
  \<^verbatim>\<open>Trie._insert(n, key, pos, value)\<close> returns \<^verbatim>\<open>[changed, node]\<close>. \<^verbatim>\<open>value\<close> is a
  node: the split of a Short re-inserts the Short's own child. \<^verbatim>\<open>n.data.equals(x)\<close>
  throws a TypeError when \<^verbatim>\<open>x\<close> is not a Buffer.
\<close>

function u_insert ::
  "decoder \<Rightarrow> Trie \<Rightarrow> nat \<Rightarrow> node \<Rightarrow> nibbles \<Rightarrow> nat \<Rightarrow> node \<Rightarrow>
     (error + (bool \<times> node)) option" where
  "u_insert dec t fuel n k p val =
     (if \<not> p \<le> length k then Some (Inl AssertionError)
      else if length k - p = 0 then
        (case n of
           Undefined \<Rightarrow> Some (Inl TypeError)
         | ValueNode nd \<Rightarrow>
             (case node_data val of
                None \<Rightarrow> Some (Inl TypeError)
              | Some vd \<Rightarrow> Some (Inr (nd \<noteq> vd, val)))
         | _ \<Rightarrow> Some (Inr (True, val)))
      else case n of
        ShortNode nk v fl \<Rightarrow>
          (let ml = prefixLen k nk p in
           if ml = length nk then
             (case u_insert dec t fuel v k (p + ml) val of
                None \<Rightarrow> None
              | Some (Inl e) \<Rightarrow> Some (Inl e)
              | Some (Inr (d, nn)) \<Rightarrow>
                  if \<not> d then Some (Inr (False, n))
                  else Some (Inr (True, shortNode t nk nn)))
           else
             (case u_insert dec t fuel NIL nk (ml + 1) v of
                None \<Rightarrow> None
              | Some (Inl e) \<Rightarrow> Some (Inl e)
              | Some (Inr (d1, n1)) \<Rightarrow>
                  (case u_insert dec t fuel NIL k (p + ml + 1) val of
                     None \<Rightarrow> None
                   | Some (Inl e) \<Rightarrow> Some (Inl e)
                   | Some (Inr (d2, n2)) \<Rightarrow>
                       (case fullNode t of
                          FullNode bcs bfl \<Rightarrow>
                            (let branch =
                               FullNode (set_child_by_key (set_child_by_key bcs nk ml n1)
                                           k (p + ml) n2) bfl
                             in if ml = 0 then Some (Inr (True, branch))
                                else Some (Inr (True, shortNode t (slice_buf k p (p + ml)) branch)))
                        | _ \<Rightarrow> Some (Inl TypeError)))))
      | FullNode cs fl \<Rightarrow>
          (case u_insert dec t fuel (child_by_key cs k p) k (p + 1) val of
             None \<Rightarrow> None
           | Some (Inl e) \<Rightarrow> Some (Inl e)
           | Some (Inr (d, nn)) \<Rightarrow>
               if \<not> d then Some (Inr (False, n))
               else Some (Inr (True, FullNode (set_child_by_key cs k p nn)
                                       (fl\<lparr>fl_hash := None, fl_dirty := True\<rparr>))))
      | NIL \<Rightarrow> Some (Inr (True, shortNode t (slice_from k p) val))
      | HashNode dg \<Rightarrow>
          (case resolveHash dec t n k p of
             Inl e \<Rightarrow> Some (Inl e)
           | Inr rn \<Rightarrow>
               (case fuel of
                  0 \<Rightarrow> None
                | Suc f \<Rightarrow>
                    (case u_insert dec t f rn k p val of
                       None \<Rightarrow> None
                     | Some (Inl e) \<Rightarrow> Some (Inl e)
                     | Some (Inr (d, nn)) \<Rightarrow>
                         if \<not> d then Some (Inr (False, rn)) else Some (Inr (True, nn)))))
      | ValueNode vd \<Rightarrow> Some (Inl (Error ''Invalid node type.''))
      | Undefined \<Rightarrow> Some (Inl TypeError))"
  by pat_completeness auto

termination u_insert
  by (relation "measures [\<lambda>(dec, t, fuel, n, k, p, val). fuel,
                          \<lambda>(dec, t, fuel, n, k, p, val). size n]")
     (auto simp: child_by_key_def child_at_def less_Suc_eq_le
        intro: order_trans[OF _ size_list_estimation'[OF nth_mem]])

declare u_insert.simps [simp del]

text \<open>
  The scan of the 17 slots in the Full case of \<^verbatim>\<open>_remove\<close>: \<^verbatim>\<open>index\<close> is -1 while
  no slot is occupied, the slot's number when exactly one is, and -2 (with a
  \<^verbatim>\<open>break\<close>) at the second. \<^verbatim>\<open>child.isNull()\<close> on \<^verbatim>\<open>undefined\<close> throws.
\<close>

function scan :: "node list \<Rightarrow> nat \<Rightarrow> int \<Rightarrow> error + int" where
  "scan cs i index =
     (if i < 17 then
        (let child = child_at cs i in
         if child = Undefined then Inl TypeError
         else if \<not> isNull child then
           (if index = - 1 then scan cs (i + 1) (int i) else Inr (- 2))
         else scan cs (i + 1) index)
      else Inr index)"
  by pat_completeness auto

termination scan
  by (relation "measure (\<lambda>(cs, i, index). 17 - i)") auto

declare scan.simps [simp del]

text \<open>\<^verbatim>\<open>Trie._remove(n, key, pos)\<close> returns \<^verbatim>\<open>[found, node]\<close>.\<close>

function u_remove ::
  "decoder \<Rightarrow> Trie \<Rightarrow> nat \<Rightarrow> node \<Rightarrow> nibbles \<Rightarrow> nat \<Rightarrow> (error + (bool \<times> node)) option" where
  "u_remove dec t fuel n k p =
     (if \<not> p \<le> length k then Some (Inl AssertionError)
      else case n of
        ShortNode nk v fl \<Rightarrow>
          (let ml = prefixLen k nk p in
           if ml < length nk then Some (Inr (False, n))
           else if ml = length k - p then Some (Inr (True, NIL))
           else
             (case u_remove dec t fuel v k (p + length nk) of
                None \<Rightarrow> None
              | Some (Inl e) \<Rightarrow> Some (Inl e)
              | Some (Inr (d, nn)) \<Rightarrow>
                  if \<not> d then Some (Inr (False, n))
                  else (case nn of
                          Undefined \<Rightarrow> Some (Inl TypeError)
                        | ShortNode nnk nnv nnfl \<Rightarrow>
                            Some (Inr (True, shortNode t (concat_buf nk nnk) nnv))
                        | _ \<Rightarrow> Some (Inr (True, shortNode t nk nn)))))
      | FullNode cs fl \<Rightarrow>
          (case u_remove dec t fuel (child_by_key cs k p) k (p + 1) of
             None \<Rightarrow> None
           | Some (Inl e) \<Rightarrow> Some (Inl e)
           | Some (Inr (d, nn)) \<Rightarrow>
               if \<not> d then Some (Inr (False, n))
               else
                 (let cs' = set_child_by_key cs k p nn;
                      fl' = fl\<lparr>fl_hash := None, fl_dirty := True\<rparr>
                  in case scan cs' 0 (- 1) of
                       Inl e \<Rightarrow> Some (Inl e)
                     | Inr index \<Rightarrow>
                         if index \<ge> 0 then
                           (if index \<noteq> 16 then
                              (case resolve dec t (child_at cs' (nat index)) k index of
                                 Inl e \<Rightarrow> Some (Inl e)
                               | Inr child \<Rightarrow>
                                   (case child of
                                      Undefined \<Rightarrow> Some (Inl TypeError)
                                    | ShortNode ck cv cfl \<Rightarrow>
                                        Some (Inr (True, shortNode t (concat_buf (byte index) ck) cv))
                                    | _ \<Rightarrow>
                                        Some (Inr (True, shortNode t (byte index)
                                                           (child_at cs' (nat index))))))
                            else Some (Inr (True, shortNode t (byte index)
                                                    (child_at cs' (nat index)))))
                         else Some (Inr (True, FullNode cs' fl'))))
      | ValueNode vd \<Rightarrow> Some (Inr (True, NIL))
      | NIL \<Rightarrow> Some (Inr (False, NIL))
      | HashNode dg \<Rightarrow>
          (case resolveHash dec t n k p of
             Inl e \<Rightarrow> Some (Inl e)
           | Inr rn \<Rightarrow>
               (case fuel of
                  0 \<Rightarrow> None
                | Suc f \<Rightarrow>
                    (case u_remove dec t f rn k p of
                       None \<Rightarrow> None
                     | Some (Inl e) \<Rightarrow> Some (Inl e)
                     | Some (Inr (d, nn)) \<Rightarrow>
                         if \<not> d then Some (Inr (False, rn)) else Some (Inr (True, nn)))))
      | Undefined \<Rightarrow> Some (Inl TypeError))"
  by pat_completeness auto

termination u_remove
  by (relation "measures [\<lambda>(dec, t, fuel, n, k, p). fuel, \<lambda>(dec, t, fuel, n, k, p). size n]")
     (auto simp: child_by_key_def child_at_def less_Suc_eq_le
        intro: order_trans[OF _ size_list_estimation'[OF nth_mem]])

declare u_remove.simps [simp del]

section \<open>The public operations\<close>

text \<open>
  Each operation takes the trie and returns it updated. \<^verbatim>\<open>get\<close>, \<^verbatim>\<open>insert\<close> and
  \<^verbatim>\<open>remove\<close> assign \<^verbatim>\<open>this.root\<close> only after the walk has returned, so a throwing
  walk leaves the trie as it was. \<open>insert_trie\<close> is \<^verbatim>\<open>Trie.insert\<close> and \<open>open_trie\<close> is
  \<^verbatim>\<open>Trie.open\<close>.
\<close>

definition get :: "decoder \<Rightarrow> nat \<Rightarrow> Trie \<Rightarrow> bytes \<Rightarrow> (error + (bytes option \<times> Trie)) option" where
  "get dec fuel t ky =
     (case u_get dec t fuel (root t) (toNibbles ky) 0 of
        None \<Rightarrow> None
      | Some (Inl e) \<Rightarrow> Some (Inl e)
      | Some (Inr (val, rt, res)) \<Rightarrow> Some (Inr (val, if res then t\<lparr>root := rt\<rparr> else t)))"

definition insert_trie :: "decoder \<Rightarrow> nat \<Rightarrow> Trie \<Rightarrow> bytes \<Rightarrow> bytes \<Rightarrow> (error + Trie) option" where
  "insert_trie dec fuel t ky v =
     (case u_insert dec t fuel (root t) (toNibbles ky) 0 (valueNode t v) of
        None \<Rightarrow> None
      | Some (Inl e) \<Rightarrow> Some (Inl e)
      | Some (Inr (d, rt)) \<Rightarrow> Some (Inr (t\<lparr>root := rt\<rparr>)))"

definition remove :: "decoder \<Rightarrow> nat \<Rightarrow> Trie \<Rightarrow> bytes \<Rightarrow> (error + Trie) option" where
  "remove dec fuel t ky =
     (case u_remove dec t fuel (root t) (toNibbles ky) 0 of
        None \<Rightarrow> None
      | Some (Inl e) \<Rightarrow> Some (Inl e)
      | Some (Inr (d, rt)) \<Rightarrow> Some (Inr (t\<lparr>root := rt\<rparr>)))"

text \<open>
  \<^verbatim>\<open>Trie.open(root)\<close>. The argument is absent or a Buffer (a hex string is turned
  into a Buffer by the runtime before anything else happens). \<open>requested_root\<close> is
  the value of \<^verbatim>\<open>root\<close> after the lookup of the state key.
\<close>

definition has :: "store \<Rightarrow> bytes \<Rightarrow> bool" where
  "has st ky \<longleftrightarrow> st ky \<noteq> None"

definition requested_root :: "Trie \<Rightarrow> bytes option \<Rightarrow> bytes option" where
  "requested_root t r0 =
     (case r0 of
        Some r \<Rightarrow> Some r
      | None \<Rightarrow> (case db t of None \<Rightarrow> None | Some st \<Rightarrow> st STATE_KEY))"

definition open_trie :: "Trie \<Rightarrow> bytes option \<Rightarrow> error + Trie" where
  "open_trie t r0 =
     (case requested_root t r0 of
        None \<Rightarrow> Inr t
      | Some r \<Rightarrow>
          if r = emptyRoot t then Inr t
          else if length r \<noteq> hash_size (hash t) then Inl AssertionError
          else (case db t of
                  None \<Rightarrow> Inl (Error ''Cannot use root without database.'')
                | Some st \<Rightarrow>
                    if \<not> has st r then
                      (case MissingNodeError_new
                              (empty_object(P_rootHash := Buf r, P_nodeHash := Buf r)) None of
                         Inl e \<Rightarrow> Inl e
                       | Inr m \<Rightarrow> Inl (MissingNode m))
                    else Inr (t\<lparr>originalRoot := r, root := hashNode t r\<rparr>)))"

definition close :: "Trie \<Rightarrow> Trie" where
  "close t = t\<lparr>root := NIL, originalRoot := emptyRoot t, cacheGen := 0\<rparr>"

text \<open>
  Modelled from the spec: \<^verbatim>\<open>emptyRoot\<close> of \<^verbatim>\<open>lib/common.js\<close> (section 6: the empty
  root equals \<^verbatim>\<open>hash(encode(Null))\<close>); \<^verbatim>\<open>encode\<close> of the codec is a parameter.
  \<^verbatim>\<open>ensureHash\<close> returns the hash object it is given.
\<close>

definition emptyRoot_of :: "(node \<Rightarrow> bytes) \<Rightarrow> hashT \<Rightarrow> bytes" where
  "emptyRoot_of enc h = hash_digest h (enc NIL)"

text \<open>
  The constructor: \<^verbatim>\<open>limit\<close> defaults to 4 and must be a 32-bit unsigned integer.
\<close>

definition Trie_new :: "(node \<Rightarrow> bytes) \<Rightarrow> hashT \<Rightarrow> store option \<Rightarrow> nat option \<Rightarrow> error + Trie" where
  "Trie_new enc h st lim =
     (let limit = (case lim of None \<Rightarrow> 4 | Some l \<Rightarrow> l)
      in if \<not> limit < 2 ^ 32 then Inl AssertionError
         else Inr \<lparr>hash = h, emptyRoot = emptyRoot_of enc h, db = st,
                   originalRoot = emptyRoot_of enc h, root = NIL, cacheGen = 0,
                   cacheLimit = limit\<rparr>)"

text \<open>
  Modelled from the spec: the Hasher of \<^verbatim>\<open>lib/hasher.js\<close> (section 4.4) is a
  parameter. \<^verbatim>\<open>new Hasher(hash, cacheGen, cacheLimit).hashRoot(root, batch, true)\<close>
  returns the Hash form of the root and the cached tree, and puts its writes into
  the batch when there is one. Here the Hasher is told whether there is a batch,
  and returns the \<^verbatim>\<open>data\<close> of the Hash node, the cached tree and its writes in
  order. A batch is the list of its \<^verbatim>\<open>put(key, value)\<close> calls in order.
\<close>

type_synonym batch = "(bytes \<times> bytes) list"

type_synonym hasher =
  "hashT \<Rightarrow> nat \<Rightarrow> nat \<Rightarrow> node \<Rightarrow> bool \<Rightarrow> bool \<Rightarrow> (bytes \<times> node) \<times> batch"

definition put :: "batch \<Rightarrow> bytes \<Rightarrow> bytes \<Rightarrow> batch" where
  "put b ky v = b @ [(ky, v)]"

text \<open>
  \<^verbatim>\<open>Trie.hashRoot(batch)\<close>: the pair it returns, and the writes the batch received.
\<close>

definition hashRoot :: "hasher \<Rightarrow> Trie \<Rightarrow> bool \<Rightarrow> error + ((bytes \<times> node) \<times> batch)" where
  "hashRoot H t with_batch =
     (if root t = Undefined then Inl TypeError
      else if isNull (root t) then Inr ((emptyRoot t, NIL), [])
      else Inr (H (hash t) (cacheGen t) (cacheLimit t) (root t) with_batch True))"

text \<open>\<^verbatim>\<open>Trie.rootHash()\<close> and \<^verbatim>\<open>Trie.commit(batch)\<close>, returning the digest as a Buffer.\<close>

definition rootHash :: "hasher \<Rightarrow> Trie \<Rightarrow> error + (bytes \<times> Trie)" where
  "rootHash H t =
     (case hashRoot H t False of
        Inl e \<Rightarrow> Inl e
      | Inr ((h, cached), ws) \<Rightarrow> Inr (h, t\<lparr>root := cached\<rparr>))"

definition commit :: "hasher \<Rightarrow> Trie \<Rightarrow> batch option \<Rightarrow> error + (bytes \<times> Trie \<times> batch)" where
  "commit H t b =
     (case b of
        None \<Rightarrow> Inl AssertionError
      | Some bt \<Rightarrow>
          (case hashRoot H t True of
             Inl e \<Rightarrow> Inl e
           | Inr ((h, cached), ws) \<Rightarrow>
               Inr (h, t\<lparr>originalRoot := h, root := cached, cacheGen := cacheGen t + 1\<rparr>,
                    put (bt @ ws) STATE_KEY h)))"

text \<open>What the Full case of \<^verbatim>\<open>_remove\<close> does once the child reported a removal.\<close>

definition collapse :: "decoder \<Rightarrow> Trie \<Rightarrow> node list \<Rightarrow> NodeFlags \<Rightarrow> nibbles \<Rightarrow> (error + (bool \<times> node)) option" where
  "collapse dec t cs' fl' k =
     (case scan cs' 0 (- 1) of
        Inl e \<Rightarrow> Some (Inl e)
      | Inr index \<Rightarrow>
          if index \<ge> 0 then
            (if index \<noteq> 16 then
               (case resolve dec t (child_at cs' (nat index)) k index of
                  Inl e \<Rightarrow> Some (Inl e)
                | Inr child \<Rightarrow>
                    (case child of
                       Undefined \<Rightarrow> Some (Inl TypeError)
                     | ShortNode ck cv cfl \<Rightarrow>
                         Some (Inr (True, shortNode t (concat_buf (byte index) ck) cv))
                     | _ \<Rightarrow>
                         Some (Inr (True, shortNode t (byte index)
                                            (child_at cs' (nat index))))))
             else Some (Inr (True, shortNode t (byte index) (child_at cs' (nat index)))))
          else Some (Inr (True, FullNode cs' fl')))"

section \<open>The logical content of a trie\<close>

text \<open>
  The slots of a Full node that are not Null, in order: the scan of \<^verbatim>\<open>_remove\<close>
  answers by how many there are.
\<close>

definition occupied_from :: "node list \<Rightarrow> nat \<Rightarrow> nat list" where
  "occupied_from cs i = filter (\<lambda>j. \<not> isNull (child_at cs j)) [i..<17]"

definition occupied :: "node list \<Rightarrow> nat list" where
  "occupied cs = occupied_from cs 0"

text \<open>
  What the caller observes of a lookup: the value, the error, or that it did not
  return.
\<close>

definition val_of :: "(error + (bytes option \<times> 'a)) option \<Rightarrow> (error + bytes option) option" where
  "val_of r = map_option (map_sum id fst) r"

text \<open>
  A terminated key: nibbles below 16 followed by the terminator 16, as
  \<open>toNibbles\<close> produces them. A plain path has no terminator.
\<close>

definition term_key :: "nibbles \<Rightarrow> bool" where
  "term_key ks \<longleftrightarrow> ks \<noteq> [] \<and> last ks = 16 \<and> (\<forall>x\<in>set (butlast ks). x < 16)"

definition plain :: "nibbles \<Rightarrow> bool" where
  "plain ks \<longleftrightarrow> (\<forall>x\<in>set ks. x < 16)"

text \<open>
  The shape of the trees that \<^verbatim>\<open>insert\<close> and \<^verbatim>\<open>remove\<close> build without a store
  (section 3 of the specification, invariants 3 and 5, and the rule that the key of a
  Short ends in 16 iff its child is a Value): no Hash node, a Value only below a
  terminated Short key or in slot 16 of a Full node, 17 slots in every Full node.
\<close>

function well_formed :: "node \<Rightarrow> bool" where
  "well_formed NIL = True"
| "well_formed (ShortNode nk v fl) = (if isValue v then term_key nk else plain nk \<and> well_formed v)"
| "well_formed (FullNode cs fl) =
     (length cs = 17 \<and>
      (\<forall>i\<in>set [0..<17].
         if i = 16 then isNull (child_at cs i) \<or> isValue (child_at cs i)
         else well_formed (child_at cs i)))"
| "well_formed (ValueNode d) = False"
| "well_formed (HashNode d) = False"
| "well_formed Undefined = False"
  by pat_completeness auto

termination well_formed
  by (relation "measure size")
     (auto simp: child_at_def less_Suc_eq_le
        intro: order_trans[OF _ size_list_estimation'[OF nth_mem]])

definition slot_ok :: "nat \<Rightarrow> node \<Rightarrow> bool" where
  "slot_ok i c \<longleftrightarrow> (if i = 16 then isNull c \<or> isValue c else well_formed c)"

text \<open>
  The same shape with Hash placeholders: a Hash node may stand wherever a Short or
  a Full node may (never for a Value), as in a trie opened from a store or hashed
  by a commit. A store holds well-formed nodes when every entry that decodes,
  decodes to such a node; this is what the codec promises of the nodes it builds
  (the key of a Short ends in 16 iff its child is a Value).
\<close>

function well_formed_h :: "node \<Rightarrow> bool" where
  "well_formed_h NIL = True"
| "well_formed_h (ShortNode nk v fl) = (if isValue v then term_key nk else plain nk \<and> well_formed_h v)"
| "well_formed_h (FullNode cs fl) =
     (length cs = 17 \<and>
      (\<forall>i\<in>set [0..<17].
         if i = 16 then isNull (child_at cs i) \<or> isValue (child_at cs i)
         else well_formed_h (child_at cs i)))"
| "well_formed_h (ValueNode d) = False"
| "well_formed_h (HashNode d) = True"
| "well_formed_h Undefined = False"
  by pat_completeness auto

termination well_formed_h
  by (relation "measure size")
     (auto simp: child_at_def less_Suc_eq_le
        intro: order_trans[OF _ size_list_estimation'[OF nth_mem]])

definition store_well_formed :: "decoder \<Rightarrow> Trie \<Rightarrow> bool" where
  "store_well_formed dec t \<longleftrightarrow>
     (\<forall>st d raw rn. db t = Some st \<and> st d = Some raw \<and> dec raw (hash t) = Inr rn
        \<longrightarrow> well_formed_h rn)"

definition slot_ok_h :: "nat \<Rightarrow> node \<Rightarrow> bool" where
  "slot_ok_h i c \<longleftrightarrow> (if i = 16 then isNull c \<or> isValue c else well_formed_h c)"

definition key_ok_h :: "nibbles \<Rightarrow> node \<Rightarrow> bool" where
  "key_ok_h nk v \<longleftrightarrow> (if isValue v then term_key nk else plain nk \<and> well_formed_h v)"

text \<open>
  The value a tree without Hash nodes holds for a nibble key: the abstraction that
  \<^verbatim>\<open>_get\<close> is compared with.
\<close>

function lookup :: "node \<Rightarrow> nibbles \<Rightarrow> bytes option" where
  "lookup NIL ks = None"
| "lookup (ValueNode d) ks = Some d"
| "lookup (ShortNode nk v fl) ks =
     (if take (length nk) ks = nk then lookup v (drop (length nk) ks) else None)"
| "lookup (FullNode cs fl) ks = (case ks of [] \<Rightarrow> None | x # r \<Rightarrow> lookup (child_at cs (unat x)) r)"
| "lookup (HashNode d) ks = None"
| "lookup Undefined ks = None"
  by pat_completeness auto

termination lookup
  by (relation "measure (\<lambda>(n, ks). size n)")
     (auto simp: child_at_def less_Suc_eq_le
        intro: order_trans[OF _ size_list_estimation'[OF nth_mem]])

definition key_ok :: "nibbles \<Rightarrow> node \<Rightarrow> bool" where
  "key_ok nk v \<longleftrightarrow> (if isValue v then term_key nk else plain nk \<and> well_formed v)"

text \<open>
  What \<^verbatim>\<open>_insert(NIL, key, pos, value)\<close> builds for the rest of a key: the value
  itself when nothing is left, a Short otherwise.
\<close>

definition attach :: "Trie \<Rightarrow> nibbles \<Rightarrow> node \<Rightarrow> node" where
  "attach t rest val = (if rest = [] then val else ShortNode rest val (flags t))"

text \<open>
  What a walk of \<^verbatim>\<open>_insert\<close> or \<^verbatim>\<open>_remove\<close> over a well-formed node must return:
  a well-formed node that holds the new value (or nothing) for the key and what it
  held before for every other terminated key, the flag telling whether anything
  changed, and the node itself when nothing did.
\<close>

definition ins_post :: "node \<Rightarrow> nibbles \<Rightarrow> bytes \<Rightarrow> (error + (bool \<times> node)) option \<Rightarrow> bool" where
  "ins_post n ks v r \<longleftrightarrow>
     (\<exists>d n'. r = Some (Inr (d, n')) \<and> well_formed n'
        \<and> (\<forall>ks'. term_key ks' \<longrightarrow> lookup n' ks' = (if ks' = ks then Some v else lookup n ks'))
        \<and> (d \<longleftrightarrow> lookup n ks \<noteq> Some v) \<and> (\<not> d \<longrightarrow> n' = n))"

definition rem_post :: "node \<Rightarrow> nibbles \<Rightarrow> (error + (bool \<times> node)) option \<Rightarrow> bool" where
  "rem_post n ks r \<longleftrightarrow>
     (\<exists>d n'. r = Some (Inr (d, n')) \<and> well_formed n'
        \<and> (\<forall>ks'. term_key ks' \<longrightarrow> lookup n' ks' = (if ks' = ks then None else lookup n ks'))
        \<and> (d \<longleftrightarrow> lookup n ks \<noteq> None) \<and> (\<not> d \<longrightarrow> n' = n))"

text \<open>
  A sequence of \<^verbatim>\<open>insert\<close> and \<^verbatim>\<open>remove\<close> calls, run in order on a trie, and the same
  sequence on a plain map from keys to values.
\<close>

datatype op = Insert bytes bytes | Remove bytes

fun apply_op :: "decoder \<Rightarrow> nat \<Rightarrow> Trie \<Rightarrow> op \<Rightarrow> (error + Trie) option" where
  "apply_op dec fuel t (Insert ky v) = insert_trie dec fuel t ky v"
| "apply_op dec fuel t (Remove ky) = remove dec fuel t ky"

fun run_ops :: "decoder \<Rightarrow> nat \<Rightarrow> Trie \<Rightarrow> op list \<Rightarrow> (error + Trie) option" where
  "run_ops dec fuel t [] = Some (Inr t)"
| "run_ops dec fuel t (x # xs) =
     (case apply_op dec fuel t x of
        None \<Rightarrow> None
      | Some (Inl e) \<Rightarrow> Some (Inl e)
      | Some (Inr t') \<Rightarrow> run_ops dec fuel t' xs)"

fun model_op :: "(bytes \<Rightarrow> bytes option) \<Rightarrow> op \<Rightarrow> (bytes \<Rightarrow> bytes option)" where
  "model_op m (Insert ky v) = m(ky \<mapsto> v)"
| "model_op m (Remove ky) = m(ky := None)"

definition contents :: "Trie \<Rightarrow> bytes \<Rightarrow> bytes option" where
  "contents t ky = lookup (root t) (toNibbles ky)"

section \<open>Sample data\<close>

definition demo_hash :: hashT where
  "demo_hash = \<lparr>hash_size = 1, hash_digest = take 1\<rparr>"

definition demo_trie :: Trie where
  "demo_trie = \<lparr>hash = demo_hash, emptyRoot = [0x80], db = None, originalRoot = [0x80],
                 root = NIL, cacheGen = 0, cacheLimit = 4\<rparr>"

definition demo_flags :: NodeFlags where
  "demo_flags = \<lparr>fl_hash = None, fl_dirty = True, fl_gen = 0\<rparr>"

definition demo_leaf :: node where
  "demo_leaf = ShortNode [1, 2, 16] (ValueNode [7]) demo_flags"

text \<open>A store with one node under the digest \<open>[5]\<close> and that digest as the committed root.\<close>

definition demo_store :: store where
  "demo_store = [[5] \<mapsto> [1], STATE_KEY \<mapsto> [5]]"

fun demo_dec :: decoder where
  "demo_dec raw h = (if raw = [1] then Inr demo_leaf else Inl CodecError)"

fun demo_enc :: "node \<Rightarrow> bytes" where
  "demo_enc n = [0x80]"

fun demo_hasher :: hasher where
  "demo_hasher h g l n wb rt = (([9], n), if wb then [([9], [1])] else [])"

definition demo_children :: "node list" where
  "demo_children =
     [NIL, NIL, NIL, ShortNode [4, 16] (ValueNode [0x61]) demo_flags, NIL,
      ShortNode [6, 16] (ValueNode [0x62]) demo_flags,
      NIL, NIL, NIL, NIL, NIL, NIL, NIL, NIL, NIL, NIL, NIL]"

definition demo_opened :: Trie where
  "demo_opened = demo_trie\<lparr>db := Some demo_store, originalRoot := [5], root := HashNode [5]\<rparr>"

definition demo_ops :: "op list" where
  "demo_ops = [Insert [0x12] [1], Insert [0x13] [2], Insert [0x12, 0x34] [4],
               Remove [0x12], Insert [0x13] [3]]"

definition demo_t1 :: Trie where
  "demo_t1 = demo_trie\<lparr>root := demo_leaf\<rparr>"

text \<open>
  A Full node with a leaf in slot 3 and a Hash child in slot 5, and a Short node
  over it. A store with three nodes: a leaf under the digest \<open>[5]\<close>, a Full node
  under \<open>[8]\<close>, and that Short node under \<open>[9]\<close>. A trie opened on the root \<open>[9]\<close>,
  and the same trie once its root has been read from the store.
\<close>

definition demo_hash_children :: "bytes \<Rightarrow> node list" where
  "demo_hash_children d =
     [NIL, NIL, NIL, ShortNode [4, 16] (ValueNode [0x61]) demo_flags, NIL,
      HashNode d,
      NIL, NIL, NIL, NIL, NIL, NIL, NIL, NIL, NIL, NIL, NIL]"

definition demo_branch :: node where
  "demo_branch = ShortNode [1] (FullNode (demo_hash_children [5]) demo_flags) demo_flags"

fun demo_dec2 :: decoder where
  "demo_dec2 raw h =
     (if raw = [1] then Inr demo_leaf
      else if raw = [2] then Inr (FullNode demo_children demo_flags)
      else if raw = [3] then Inr demo_branch
      else Inl CodecError)"

definition demo_store2 :: store where
  "demo_store2 = [[5] \<mapsto> [1], [8] \<mapsto> [2], [9] \<mapsto> [3]]"

definition demo_stored :: Trie where
  "demo_stored = demo_trie\<lparr>db := Some demo_store2\<rparr>"

definition demo_opened2 :: Trie where
  "demo_opened2 = demo_stored\<lparr>originalRoot := [9], root := HashNode [9]\<rparr>"

definition demo_mixed :: Trie where
  "demo_mixed = demo_opened2\<lparr>root := demo_branch\<rparr>"

section \<open>Opening a trie\<close>

lemma MissingNodeError_new_one_arg:
  "MissingNodeError_new ob None = (case ob P_size of Buf b \<Rightarrow>
      Inr \<lparr>e_rootHash = Buf b, e_nodeHash = Buf b, e_key = None, e_pos = 0\<rparr>
    | Undef \<Rightarrow> Inl TypeError | Num n \<Rightarrow> Inl RangeError)"
  by (simp add: MissingNodeError_new_def empty_object_def js_or_def Let_def split: jsval.splits)

text \<open>
  Claim C10: \<^verbatim>\<open>open()\<close> with no root on a trie without a database, and
  \<^verbatim>\<open>open(root)\<close> with the empty root, return without an error and leave the trie
  (root, originalRoot, cacheGen and every other field) as it was.
\<close>

theorem open_noop:
  "(db t = None \<longrightarrow> open_trie t None = Inr t) \<and> open_trie t (Some (emptyRoot t)) = Inr t"
  by (simp add: open_trie_def requested_root_def)

theorem open_noop_witness:
  "db demo_trie = None \<and> open_trie demo_trie None = Inr demo_trie
   \<and> open_trie demo_trie (Some (emptyRoot demo_trie)) = Inr demo_trie"
  using open_noop [of demo_trie] by (simp add: demo_trie_def)

text \<open>
  Claim C5, as the code has it: \<^verbatim>\<open>open(root?)\<close> reads the state key \<open>0x73\<close> when root
  is absent and a store is configured. When the resulting root is not the empty
  root, it must have the digest width (else an assertion fails), a store must be
  configured (else the error "Cannot use root without database."), and the store
  must hold the root (else \<^verbatim>\<open>open\<close> fails); then \<open>originalRoot\<close> becomes the root and
  \<open>root\<close> its Hash node, and nothing else changes.
\<close>

theorem open_trie_spec:
  "(db t = Some st \<longrightarrow> requested_root t None = st STATE_KEY \<and> STATE_KEY = [0x73]) \<and>
   (requested_root t r0 = Some r \<and> r \<noteq> emptyRoot t \<longrightarrow>
      (length r \<noteq> hash_size (hash t) \<longrightarrow> open_trie t r0 = Inl AssertionError) \<and>
      (length r = hash_size (hash t) \<and> db t = None \<longrightarrow>
         open_trie t r0 = Inl (Error ''Cannot use root without database.'')) \<and>
      (length r = hash_size (hash t) \<and> db t = Some st \<and> st r = None \<longrightarrow>
         isl (open_trie t r0)) \<and>
      (length r = hash_size (hash t) \<and> db t = Some st \<and> st r \<noteq> None \<longrightarrow>
         open_trie t r0 = Inr (t\<lparr>originalRoot := r, root := HashNode r\<rparr>)))"
  by (auto simp: open_trie_def requested_root_def has_def hashNode_def STATE_KEY_def
      split: sum.splits)

theorem open_trie_spec_witness:
  "db (demo_trie\<lparr>db := Some demo_store\<rparr>) = Some demo_store
   \<and> requested_root (demo_trie\<lparr>db := Some demo_store\<rparr>) None = Some [5]
   \<and> [5] \<noteq> emptyRoot (demo_trie\<lparr>db := Some demo_store\<rparr>)
   \<and> length [5 :: byte] = hash_size (hash (demo_trie\<lparr>db := Some demo_store\<rparr>))
   \<and> demo_store [5] \<noteq> None
   \<and> open_trie (demo_trie\<lparr>db := Some demo_store\<rparr>) None
       = Inr (demo_trie\<lparr>db := Some demo_store, originalRoot := [5], root := HashNode [5]\<rparr>)"
  using open_trie_spec [of "demo_trie\<lparr>db := Some demo_store\<rparr>" demo_store None "[5]"]
  by (simp add: demo_trie_def demo_store_def demo_hash_def STATE_KEY_def requested_root_def)

text \<open>
  The claim as stated fails on a trie without a store: a non-empty root of the right
  width is refused with the error "Cannot use root without database.", not with a
  MissingNode error.
\<close>

theorem open_without_store_counterexample:
  "open_trie demo_trie (Some [5]) = Inl (Error ''Cannot use root without database.'')"
  by (simp add: open_trie_def requested_root_def demo_trie_def demo_hash_def)

section \<open>Resolving a hash\<close>

text \<open>
  What \<^verbatim>\<open>resolveHash\<close> throws when the store has no entry for the digest. The call
  \<^verbatim>\<open>new MissingNodeError({...})\<close> passes the fields as the constructor's first
  parameter \<^verbatim>\<open>hash\<close>; \<^verbatim>\<open>options\<close> is then the empty default, \<^verbatim>\<open>nodeHash\<close> becomes
  \<^verbatim>\<open>hash.size\<close>, which the object literal does not have, and building the message
  throws a TypeError before any MissingNodeError exists.
\<close>

lemma resolveHash_absent:
  "db t = Some st \<Longrightarrow> st d = None \<Longrightarrow> resolveHash dec t (HashNode d) k p = Inl TypeError"
  by (simp add: resolveHash_def MissingNodeError_new_one_arg empty_object_def)

lemma resolveHash_present:
  "db t = Some st \<Longrightarrow> st d = Some raw \<Longrightarrow> resolveHash dec t (HashNode d) k p = dec raw (hash t)"
  by (simp add: resolveHash_def)

lemma resolveHash_no_store:
  "db t = None \<Longrightarrow>
   resolveHash dec t n k p = Inl (Error ''Cannot resolve hash without database.'')"
  by (simp add: resolveHash_def)

text \<open>
  Had the fields been passed as the second argument, the constructor would have
  built the error the call site describes.
\<close>

lemma MissingNodeError_new_two_args:
  "fromNibbles k = Inr kb \<Longrightarrow>
   MissingNodeError_new h
     (Some (empty_object(P_rootHash := Buf r, P_nodeHash := Buf d, P_key := Buf k, P_pos := Num p)))
   = Inr \<lparr>e_rootHash = Buf r, e_nodeHash = Buf d, e_key = Some kb, e_pos = p mod 2 ^ 32\<rparr>"
  by (simp add: MissingNodeError_new_def js_or_def Let_def)

text \<open>
  Claim C2 asks for a MissingNodeError with \<open>rootHash = originalRoot\<close>,
  \<open>nodeHash\<close> the missing digest, \<open>key = from_nibbles(key)\<close> and \<open>pos\<close>. On a store
  that lacks the digest \<open>[6]\<close>, \<^verbatim>\<open>resolveHash\<close> throws a TypeError instead.
\<close>

theorem resolveHash_missing_digest_throws_TypeError:
  "resolveHash dec (demo_trie\<lparr>db := Some demo_store\<rparr>) (HashNode [6]) [1, 2, 16] 0 = Inl TypeError
   \<and> Inl TypeError \<noteq>
       (Inl (MissingNode \<lparr>e_rootHash = Buf (originalRoot demo_trie), e_nodeHash = Buf [6],
                          e_key = Some [0x12], e_pos = 0\<rparr>) :: error + node)
   \<and> fromNibbles [1, 2, 16] = Inr [0x12]"
  by (simp add: resolveHash_absent [where st = demo_store] demo_store_def STATE_KEY_def
      fromNibbles_def)

section \<open>Root hash and commit\<close>

text \<open>
  Claim C8: on a freshly constructed trie (never opened, nothing inserted)
  \<^verbatim>\<open>rootHash()\<close> returns the empty-root constant, which is the digest of the
  encoding of the empty node, and leaves the trie as it is; the Hasher is not
  consulted, so any two Hashers give the same result.
\<close>

theorem rootHash_fresh:
  "Trie_new enc h st lim = Inr t \<Longrightarrow>
   rootHash H t = Inr (emptyRoot t, t) \<and> emptyRoot t = hash_digest h (enc NIL)
   \<and> root t = NIL \<and> rootHash H' t = rootHash H t"
  by (auto simp: Trie_new_def rootHash_def hashRoot_def emptyRoot_of_def Let_def
      split: if_splits)

theorem rootHash_fresh_witness:
  "Trie_new demo_enc demo_hash None None = Inr demo_trie
   \<and> rootHash demo_hasher demo_trie = Inr ([0x80], demo_trie)"
  using rootHash_fresh [of demo_enc demo_hash None None demo_trie demo_hasher]
  by (simp add: Trie_new_def demo_trie_def emptyRoot_of_def demo_hash_def)

text \<open>
  Claim C6: \<^verbatim>\<open>commit(batch)\<close> hashes the root with the batch (through the Hasher;
  for a Null root \<^verbatim>\<open>hashRoot\<close> answers with the empty root itself and writes
  nothing), then puts \<open>(STATE_KEY, digest)\<close> into the batch after the Hasher's
  writes, sets \<open>originalRoot\<close> to the digest, \<open>root\<close> to the cached tree, adds one to
  \<open>cacheGen\<close>, and returns the digest.
\<close>

theorem commit_spec:
  "root t \<noteq> Undefined \<Longrightarrow>
   \<exists>d cached ws.
     hashRoot H t True = Inr ((d, cached), ws)
     \<and> commit H t (Some bt)
         = Inr (d, t\<lparr>originalRoot := d, root := cached, cacheGen := cacheGen t + 1\<rparr>,
                bt @ ws @ [([0x73], d)])
     \<and> (\<not> isNull (root t) \<longrightarrow>
          H (hash t) (cacheGen t) (cacheLimit t) (root t) True True = ((d, cached), ws))
     \<and> (isNull (root t) \<longrightarrow> d = emptyRoot t \<and> cached = NIL \<and> ws = [])"
  by (cases "H (hash t) (cacheGen t) (cacheLimit t) (root t) True True")
     (auto simp: commit_def hashRoot_def put_def STATE_KEY_def)

theorem commit_spec_witness:
  "root (demo_trie\<lparr>root := demo_leaf\<rparr>) \<noteq> Undefined
   \<and> commit demo_hasher (demo_trie\<lparr>root := demo_leaf\<rparr>) (Some [])
       = Inr ([9], demo_trie\<lparr>originalRoot := [9], root := demo_leaf, cacheGen := 1\<rparr>,
              [([9], [1]), ([0x73], [9])])"
  using commit_spec [of "demo_trie\<lparr>root := demo_leaf\<rparr>" demo_hasher "[]"]
  by (simp add: demo_trie_def demo_leaf_def hashRoot_def)

section \<open>The walks, one node kind at a time\<close>

lemma u_get_assert: "\<not> p \<le> length k \<Longrightarrow> u_get dec t fuel n k p = Some (Inl AssertionError)"
  by (subst u_get.simps) simp

lemma u_get_NIL: "p \<le> length k \<Longrightarrow> u_get dec t fuel NIL k p = Some (Inr (None, NIL, False))"
  by (subst u_get.simps) simp

lemma u_get_Value:
  "p \<le> length k \<Longrightarrow> u_get dec t fuel (ValueNode d) k p = Some (Inr (Some d, ValueNode d, False))"
  by (subst u_get.simps) simp

lemma u_get_Undefined: "p \<le> length k \<Longrightarrow> u_get dec t fuel Undefined k p = Some (Inl TypeError)"
  by (subst u_get.simps) simp

lemma u_get_Short:
  "p \<le> length k \<Longrightarrow> u_get dec t fuel (ShortNode nk v fl) k p =
     (if \<not> startsWith k nk p then Some (Inr (None, ShortNode nk v fl, False))
      else (case u_get dec t fuel v k (p + length nk) of
              None \<Rightarrow> None
            | Some (Inl e) \<Rightarrow> Some (Inl e)
            | Some (Inr (val, nn, res)) \<Rightarrow>
                Some (Inr (val, if res then ShortNode nk nn fl else ShortNode nk v fl, res))))"
  by (subst u_get.simps) simp

lemma u_get_Full:
  "p \<le> length k \<Longrightarrow> u_get dec t fuel (FullNode cs fl) k p =
     (case u_get dec t fuel (child_by_key cs k p) k (p + 1) of
        None \<Rightarrow> None
      | Some (Inl e) \<Rightarrow> Some (Inl e)
      | Some (Inr (val, nn, res)) \<Rightarrow>
          Some (Inr (val, if res then FullNode (set_child_by_key cs k p nn) fl
                          else FullNode cs fl, res)))"
  by (subst u_get.simps) simp

lemma u_get_Hash:
  "p \<le> length k \<Longrightarrow> u_get dec t fuel (HashNode d) k p =
     (case resolveHash dec t (HashNode d) k p of
        Inl e \<Rightarrow> Some (Inl e)
      | Inr child \<Rightarrow>
          (case fuel of
             0 \<Rightarrow> None
           | Suc f \<Rightarrow>
               (case u_get dec t f child k p of
                  None \<Rightarrow> None
                | Some (Inl e) \<Rightarrow> Some (Inl e)
                | Some (Inr (val, nn, res)) \<Rightarrow> Some (Inr (val, nn, True)))))"
  by (subst u_get.simps) simp

lemmas u_get_cases = u_get_NIL u_get_Value u_get_Undefined u_get_Short u_get_Full u_get_Hash

lemma u_insert_assert:
  "\<not> p \<le> length k \<Longrightarrow> u_insert dec t fuel n k p val = Some (Inl AssertionError)"
  by (subst u_insert.simps) simp

lemma u_insert_end:
  "p = length k \<Longrightarrow> u_insert dec t fuel n k p val =
     (case n of
        Undefined \<Rightarrow> Some (Inl TypeError)
      | ValueNode nd \<Rightarrow>
          (case node_data val of
             None \<Rightarrow> Some (Inl TypeError)
           | Some vd \<Rightarrow> Some (Inr (nd \<noteq> vd, val)))
      | _ \<Rightarrow> Some (Inr (True, val)))"
  by (subst u_insert.simps) simp

lemma u_insert_NIL:
  "p < length k \<Longrightarrow>
   u_insert dec t fuel NIL k p val = Some (Inr (True, shortNode t (slice_from k p) val))"
  by (subst u_insert.simps) simp

lemma u_insert_Value:
  "p < length k \<Longrightarrow>
   u_insert dec t fuel (ValueNode d) k p val = Some (Inl (Error ''Invalid node type.''))"
  by (subst u_insert.simps) simp

lemma u_insert_Undefined:
  "p < length k \<Longrightarrow> u_insert dec t fuel Undefined k p val = Some (Inl TypeError)"
  by (subst u_insert.simps) simp

lemma u_insert_Short_match:
  "p < length k \<Longrightarrow> prefixLen k nk p = length nk \<Longrightarrow>
   u_insert dec t fuel (ShortNode nk v fl) k p val =
     (case u_insert dec t fuel v k (p + length nk) val of
        None \<Rightarrow> None
      | Some (Inl e) \<Rightarrow> Some (Inl e)
      | Some (Inr (d, nn)) \<Rightarrow>
          if \<not> d then Some (Inr (False, ShortNode nk v fl))
          else Some (Inr (True, shortNode t nk nn)))"
  by (subst u_insert.simps) simp

lemma u_insert_Short_split:
  "p < length k \<Longrightarrow> prefixLen k nk p \<noteq> length nk \<Longrightarrow>
   u_insert dec t fuel (ShortNode nk v fl) k p val =
     (let ml = prefixLen k nk p in
      case u_insert dec t fuel NIL nk (ml + 1) v of
        None \<Rightarrow> None
      | Some (Inl e) \<Rightarrow> Some (Inl e)
      | Some (Inr (d1, n1)) \<Rightarrow>
          (case u_insert dec t fuel NIL k (p + ml + 1) val of
             None \<Rightarrow> None
           | Some (Inl e) \<Rightarrow> Some (Inl e)
           | Some (Inr (d2, n2)) \<Rightarrow>
               (let branch =
                  FullNode (set_child_by_key (set_child_by_key (replicate 17 NIL) nk ml n1)
                              k (p + ml) n2) (flags t)
                in if ml = 0 then Some (Inr (True, branch))
                   else Some (Inr (True, shortNode t (slice_buf k p (p + ml)) branch)))))"
  by (subst u_insert.simps)
     (simp add: Let_def fullNode_def cong: option.case_cong sum.case_cong prod.case_cong)

lemma u_insert_Full:
  "p < length k \<Longrightarrow>
   u_insert dec t fuel (FullNode cs fl) k p val =
     (case u_insert dec t fuel (child_by_key cs k p) k (p + 1) val of
        None \<Rightarrow> None
      | Some (Inl e) \<Rightarrow> Some (Inl e)
      | Some (Inr (d, nn)) \<Rightarrow>
          if \<not> d then Some (Inr (False, FullNode cs fl))
          else Some (Inr (True, FullNode (set_child_by_key cs k p nn)
                                  (fl\<lparr>fl_hash := None, fl_dirty := True\<rparr>))))"
  by (subst u_insert.simps) simp

lemma u_insert_Hash:
  "p < length k \<Longrightarrow>
   u_insert dec t fuel (HashNode dg) k p val =
     (case resolveHash dec t (HashNode dg) k p of
        Inl e \<Rightarrow> Some (Inl e)
      | Inr rn \<Rightarrow>
          (case fuel of
             0 \<Rightarrow> None
           | Suc f \<Rightarrow>
               (case u_insert dec t f rn k p val of
                  None \<Rightarrow> None
                | Some (Inl e) \<Rightarrow> Some (Inl e)
                | Some (Inr (d, nn)) \<Rightarrow>
                    if \<not> d then Some (Inr (False, rn)) else Some (Inr (True, nn)))))"
  by (subst u_insert.simps) simp

lemma u_remove_assert:
  "\<not> p \<le> length k \<Longrightarrow> u_remove dec t fuel n k p = Some (Inl AssertionError)"
  by (subst u_remove.simps) simp

lemma u_remove_NIL: "p \<le> length k \<Longrightarrow> u_remove dec t fuel NIL k p = Some (Inr (False, NIL))"
  by (subst u_remove.simps) simp

lemma u_remove_Value:
  "p \<le> length k \<Longrightarrow> u_remove dec t fuel (ValueNode d) k p = Some (Inr (True, NIL))"
  by (subst u_remove.simps) simp

lemma u_remove_Undefined:
  "p \<le> length k \<Longrightarrow> u_remove dec t fuel Undefined k p = Some (Inl TypeError)"
  by (subst u_remove.simps) simp

lemma u_remove_Short:
  "p \<le> length k \<Longrightarrow>
   u_remove dec t fuel (ShortNode nk v fl) k p =
     (let ml = prefixLen k nk p in
      if ml < length nk then Some (Inr (False, ShortNode nk v fl))
      else if ml = length k - p then Some (Inr (True, NIL))
      else
        (case u_remove dec t fuel v k (p + length nk) of
           None \<Rightarrow> None
         | Some (Inl e) \<Rightarrow> Some (Inl e)
         | Some (Inr (d, nn)) \<Rightarrow>
             if \<not> d then Some (Inr (False, ShortNode nk v fl))
             else (case nn of
                     Undefined \<Rightarrow> Some (Inl TypeError)
                   | ShortNode nnk nnv nnfl \<Rightarrow>
                       Some (Inr (True, shortNode t (concat_buf nk nnk) nnv))
                   | _ \<Rightarrow> Some (Inr (True, shortNode t nk nn)))))"
  by (subst u_remove.simps) simp

lemma u_remove_Full:
  "p \<le> length k \<Longrightarrow>
   u_remove dec t fuel (FullNode cs fl) k p =
     (case u_remove dec t fuel (child_by_key cs k p) k (p + 1) of
        None \<Rightarrow> None
      | Some (Inl e) \<Rightarrow> Some (Inl e)
      | Some (Inr (d, nn)) \<Rightarrow>
          if \<not> d then Some (Inr (False, FullNode cs fl))
          else collapse dec t (set_child_by_key cs k p nn)
                 (fl\<lparr>fl_hash := None, fl_dirty := True\<rparr>) k)"
  by (subst u_remove.simps)
     (simp add: collapse_def Let_def cong: option.case_cong sum.case_cong prod.case_cong
        if_cong)

lemma u_remove_Hash:
  "p \<le> length k \<Longrightarrow>
   u_remove dec t fuel (HashNode dg) k p =
     (case resolveHash dec t (HashNode dg) k p of
        Inl e \<Rightarrow> Some (Inl e)
      | Inr rn \<Rightarrow>
          (case fuel of
             0 \<Rightarrow> None
           | Suc f \<Rightarrow>
               (case u_remove dec t f rn k p of
                  None \<Rightarrow> None
                | Some (Inl e) \<Rightarrow> Some (Inl e)
                | Some (Inr (d, nn)) \<Rightarrow>
                    if \<not> d then Some (Inr (False, rn)) else Some (Inr (True, nn)))))"
  by (subst u_remove.simps) simp

section \<open>Removal from a Full node\<close>

lemma occupied_from_step:
  "i < 17 \<Longrightarrow> occupied_from cs i =
     (if isNull (child_at cs i) then occupied_from cs (Suc i) else i # occupied_from cs (Suc i))"
  by (simp add: occupied_from_def upt_conv_Cons)

lemma occupied_from_end: "17 \<le> i \<Longrightarrow> occupied_from cs i = []"
  by (simp add: occupied_from_def)

lemma scan_from:
  "i \<le> 17 \<Longrightarrow> \<forall>j<17. child_at cs j \<noteq> Undefined \<Longrightarrow>
   scan cs i idx =
     Inr (case occupied_from cs i of
            [] \<Rightarrow> idx
          | [j] \<Rightarrow> if idx = - 1 then int j else - 2
          | _ \<Rightarrow> - 2)"
proof (induction "17 - i" arbitrary: i idx)
  case 0
  then have "i = 17" by simp
  then show ?case by (subst scan.simps) (simp add: occupied_from_end)
next
  case (Suc m)
  then have i: "i < 17" and m: "m = 17 - Suc i" and le: "Suc i \<le> 17" by simp_all
  have u: "child_at cs i \<noteq> Undefined" using Suc.prems i by simp
  have IH: "\<And>idx'. scan cs (Suc i) idx' =
     Inr (case occupied_from cs (Suc i) of
            [] \<Rightarrow> idx'
          | [j] \<Rightarrow> if idx' = - 1 then int j else - 2
          | _ \<Rightarrow> - 2)"
    using Suc.hyps(1)[OF m le Suc.prems(2)] .
  show ?case
    apply (subst scan.simps)
    apply (simp add: i u IH Let_def occupied_from_step[OF i])
    apply (auto split: list.splits)
    done
qed

lemma scan_all:
  "\<forall>j<17. child_at cs j \<noteq> Undefined \<Longrightarrow>
   scan cs 0 (- 1) = Inr (case occupied cs of [] \<Rightarrow> - 1 | [j] \<Rightarrow> int j | _ \<Rightarrow> - 2)"
  by (simp add: scan_from occupied_def cong: list.case_cong)

lemma occupied_set: "set (occupied cs) = {j. j < 17 \<and> \<not> isNull (child_at cs j)}"
  by (auto simp: occupied_def occupied_from_def)

lemma collapse_single:
  assumes "\<forall>j<17. child_at cs j \<noteq> Undefined" "occupied cs = [i]"
  shows "collapse dec t cs fl k =
     (if i = 16 then Some (Inr (True, ShortNode [16] (child_at cs 16) (flags t)))
      else case resolve dec t (child_at cs i) k (int i) of
             Inl e \<Rightarrow> Some (Inl e)
           | Inr child \<Rightarrow>
               (case child of
                  Undefined \<Rightarrow> Some (Inl TypeError)
                | ShortNode ck cv cfl \<Rightarrow>
                    Some (Inr (True, ShortNode (word_of_nat i # ck) cv (flags t)))
                | _ \<Rightarrow> Some (Inr (True, ShortNode [word_of_nat i] (child_at cs i) (flags t)))))"
  using assms
  by (simp add: collapse_def scan_all shortNode_def byte_def concat_buf_def
      cong: sum.case_cong node.case_cong)

lemma collapse_many:
  assumes "\<forall>j<17. child_at cs j \<noteq> Undefined" "2 \<le> length (occupied cs)"
  shows "collapse dec t cs fl k = Some (Inr (True, FullNode cs fl))"
  using assms
  by (auto simp: collapse_def scan_all split: list.splits)

lemma resolve_Hash_present:
  "db t = Some st \<Longrightarrow> st d = Some raw \<Longrightarrow> resolve dec t (HashNode d) k i = dec raw (hash t)"
  by (simp add: resolve_def resolveHash_present)

lemma resolve_Hash_no_store:
  "db t = None \<Longrightarrow> resolve dec t (HashNode d) k i = Inl (Error ''Cannot resolve hash without database.'')"
  by (simp add: resolve_def resolveHash_no_store)

lemma resolve_other:
  "\<not> isHash n \<Longrightarrow> n \<noteq> Undefined \<Longrightarrow> resolve dec t n k i = Inr n"
  by (cases n) (simp_all add: resolve_def)

text \<open>
  Claim C3: in the Full case of \<^verbatim>\<open>_remove\<close>, once the child reported a removal and
  the slot has been updated: if slot 16 is the only one that is not Null the node
  becomes \<open>Short([16], children[16])\<close>. If slot \<open>i < 16\<close> is the only one: a Short
  child gives \<open>Short([i] ++ child.key, child.value)\<close>; a Hash child is looked up in
  the store and decoded, and if the decoded node is a Short the result is
  \<open>Short([i] ++ decoded.key, decoded.value)\<close>, otherwise \<open>Short([i], children[i])\<close>
  with the Hash child kept as it is; a failing decoder or a missing store is the
  error of the removal; any other child gives \<open>Short([i], children[i])\<close>. If two or
  more slots are not Null, the clone of the Full with the updated slot, no cached
  hash and the dirty mark is returned.
\<close>

theorem remove_Full_collapse:
  assumes "p < length k"
    and "u_remove dec t fuel (child_at cs (unat (k ! p))) k (p + 1) = Some (Inr (True, nn))"
    and "cs' = set_child cs (unat (k ! p)) nn"
    and "\<forall>j<17. child_at cs' j \<noteq> Undefined"
  shows
   "(occupied cs' = [16] \<longrightarrow>
       u_remove dec t fuel (FullNode cs fl) k p
         = Some (Inr (True, ShortNode [16] (child_at cs' 16) (flags t)))) \<and>
    (i < 16 \<and> occupied cs' = [i] \<and> child_at cs' i = ShortNode ck cv cfl \<longrightarrow>
       u_remove dec t fuel (FullNode cs fl) k p
         = Some (Inr (True, ShortNode (word_of_nat i # ck) cv (flags t)))) \<and>
    (i < 16 \<and> occupied cs' = [i] \<and> child_at cs' i = HashNode d
       \<and> db t = Some st \<and> st d = Some raw \<and> dec raw (hash t) = Inr (ShortNode ck cv cfl) \<longrightarrow>
       u_remove dec t fuel (FullNode cs fl) k p
         = Some (Inr (True, ShortNode (word_of_nat i # ck) cv (flags t)))) \<and>
    (i < 16 \<and> occupied cs' = [i] \<and> child_at cs' i = HashNode d
       \<and> db t = Some st \<and> st d = Some raw \<and> dec raw (hash t) = Inr child
       \<and> \<not> isShort child \<and> child \<noteq> Undefined \<longrightarrow>
       u_remove dec t fuel (FullNode cs fl) k p
         = Some (Inr (True, ShortNode [word_of_nat i] (HashNode d) (flags t)))) \<and>
    (i < 16 \<and> occupied cs' = [i] \<and> child_at cs' i = HashNode d
       \<and> db t = Some st \<and> st d = Some raw \<and> dec raw (hash t) = Inl e \<longrightarrow>
       u_remove dec t fuel (FullNode cs fl) k p = Some (Inl e)) \<and>
    (i < 16 \<and> occupied cs' = [i] \<and> child_at cs' i = HashNode d \<and> db t = None \<longrightarrow>
       u_remove dec t fuel (FullNode cs fl) k p
         = Some (Inl (Error ''Cannot resolve hash without database.''))) \<and>
    (i < 16 \<and> occupied cs' = [i] \<and> \<not> isShort (child_at cs' i) \<and> \<not> isHash (child_at cs' i) \<longrightarrow>
       u_remove dec t fuel (FullNode cs fl) k p
         = Some (Inr (True, ShortNode [word_of_nat i] (child_at cs' i) (flags t)))) \<and>
    (2 \<le> length (occupied cs') \<longrightarrow>
       u_remove dec t fuel (FullNode cs fl) k p
         = Some (Inr (True, FullNode cs' (fl\<lparr>fl_hash := None, fl_dirty := True\<rparr>))))"
proof -
  have step: "u_remove dec t fuel (FullNode cs fl) k p
      = collapse dec t cs' (fl\<lparr>fl_hash := None, fl_dirty := True\<rparr>) k"
    using assms(1,2,3) by (simp add: u_remove_Full child_by_key_def set_child_by_key_def)
  have def: "i < 16 \<Longrightarrow> child_at cs' i \<noteq> Undefined" using assms(4) by simp
  have c1: "occupied cs' = [16] \<longrightarrow>
       collapse dec t cs' (fl\<lparr>fl_hash := None, fl_dirty := True\<rparr>) k
         = Some (Inr (True, ShortNode [16] (child_at cs' 16) (flags t)))"
    using assms(4) by (simp add: collapse_single)
  have c2: "i < 16 \<and> occupied cs' = [i] \<and> child_at cs' i = ShortNode ck cv cfl \<longrightarrow>
       collapse dec t cs' (fl\<lparr>fl_hash := None, fl_dirty := True\<rparr>) k
         = Some (Inr (True, ShortNode (word_of_nat i # ck) cv (flags t)))"
    using assms(4) by (simp add: collapse_single resolve_other)
  have c3: "i < 16 \<and> occupied cs' = [i] \<and> child_at cs' i = HashNode d
       \<and> db t = Some st \<and> st d = Some raw \<and> dec raw (hash t) = Inr (ShortNode ck cv cfl) \<longrightarrow>
       collapse dec t cs' (fl\<lparr>fl_hash := None, fl_dirty := True\<rparr>) k
         = Some (Inr (True, ShortNode (word_of_nat i # ck) cv (flags t)))"
    using assms(4) by (simp add: collapse_single resolve_Hash_present)
  have c4: "i < 16 \<and> occupied cs' = [i] \<and> child_at cs' i = HashNode d
       \<and> db t = Some st \<and> st d = Some raw \<and> dec raw (hash t) = Inr child
       \<and> \<not> isShort child \<and> child \<noteq> Undefined \<longrightarrow>
       collapse dec t cs' (fl\<lparr>fl_hash := None, fl_dirty := True\<rparr>) k
         = Some (Inr (True, ShortNode [word_of_nat i] (HashNode d) (flags t)))"
    using assms(4) by (cases child) (simp_all add: collapse_single resolve_Hash_present)
  have c5: "i < 16 \<and> occupied cs' = [i] \<and> child_at cs' i = HashNode d
       \<and> db t = Some st \<and> st d = Some raw \<and> dec raw (hash t) = Inl e \<longrightarrow>
       collapse dec t cs' (fl\<lparr>fl_hash := None, fl_dirty := True\<rparr>) k = Some (Inl e)"
    using assms(4) by (simp add: collapse_single resolve_Hash_present)
  have c6: "i < 16 \<and> occupied cs' = [i] \<and> child_at cs' i = HashNode d \<and> db t = None \<longrightarrow>
       collapse dec t cs' (fl\<lparr>fl_hash := None, fl_dirty := True\<rparr>) k
         = Some (Inl (Error ''Cannot resolve hash without database.''))"
    using assms(4) by (simp add: collapse_single resolve_Hash_no_store)
  have c7: "i < 16 \<and> occupied cs' = [i] \<and> \<not> isShort (child_at cs' i) \<and> \<not> isHash (child_at cs' i) \<longrightarrow>
       collapse dec t cs' (fl\<lparr>fl_hash := None, fl_dirty := True\<rparr>) k
         = Some (Inr (True, ShortNode [word_of_nat i] (child_at cs' i) (flags t)))"
    using assms(4) def by (cases "child_at cs' i") (auto simp: collapse_single resolve_other)
  have c8: "2 \<le> length (occupied cs') \<longrightarrow>
       collapse dec t cs' (fl\<lparr>fl_hash := None, fl_dirty := True\<rparr>) k
         = Some (Inr (True, FullNode cs' (fl\<lparr>fl_hash := None, fl_dirty := True\<rparr>)))"
    using assms(4) by (simp add: collapse_many)
  show ?thesis
    unfolding step using c1 c2 c3 c4 c5 c6 c7 c8 by blast
qed

theorem remove_Full_collapse_witness:
  "u_remove demo_dec demo_trie 0 (FullNode demo_children demo_flags) [1, 2, 3, 4, 16] 2
       = Some (Inr (True, ShortNode [5, 6, 16] (ValueNode [0x62]) (flags demo_trie)))
   \<and> db demo_stored = Some demo_store2 \<and> demo_store2 [5] = Some [1]
   \<and> demo_dec2 [1] (hash demo_stored) = Inr (ShortNode [1, 2, 16] (ValueNode [7]) demo_flags)
   \<and> u_remove demo_dec2 demo_stored 0 (FullNode (demo_hash_children [5]) demo_flags) [1, 2, 3, 4, 16] 2
       = Some (Inr (True, ShortNode [5, 1, 2, 16] (ValueNode [7]) (flags demo_stored)))
   \<and> demo_store2 [8] = Some [2]
   \<and> demo_dec2 [2] (hash demo_stored) = Inr (FullNode demo_children demo_flags)
   \<and> u_remove demo_dec2 demo_stored 0 (FullNode (demo_hash_children [8]) demo_flags) [1, 2, 3, 4, 16] 2
       = Some (Inr (True, ShortNode [5] (HashNode [8]) (flags demo_stored)))"
proof -
  let ?k = "[1, 2, 3, 4, 16 :: byte]"
  have h1: "(2 :: nat) < length ?k" by simp
  have a2: "u_remove demo_dec demo_trie 0 (child_at demo_children (unat (?k ! 2))) ?k (2 + 1)
              = Some (Inr (True, NIL))"
    by code_simp
  have a3: "set_child demo_children 3 NIL = set_child demo_children (unat (?k ! 2)) NIL"
    by simp
  have a4: "\<forall>j<17. child_at (set_child demo_children 3 NIL) j \<noteq> Undefined"
    by code_simp
  have a5: "(5 :: nat) < 16 \<and> occupied (set_child demo_children 3 NIL) = [5]
      \<and> child_at (set_child demo_children 3 NIL) 5 = ShortNode [6, 16] (ValueNode [0x62]) demo_flags"
    by code_simp
  have A: "u_remove demo_dec demo_trie 0 (FullNode demo_children demo_flags) ?k 2
       = Some (Inr (True, ShortNode [5, 6, 16] (ValueNode [0x62]) (flags demo_trie)))"
    using remove_Full_collapse [OF h1 a2 a3 a4, where i = 5 and ck = "[6, 16]"
        and cv = "ValueNode [0x62]" and cfl = demo_flags and fl = demo_flags] a5
    by simp
  have b2: "\<And>d. u_remove demo_dec2 demo_stored 0 (child_at (demo_hash_children d) (unat (?k ! 2))) ?k (2 + 1)
              = Some (Inr (True, NIL))"
    by code_simp
  have b3: "\<And>d. set_child (demo_hash_children d) 3 NIL
      = set_child (demo_hash_children d) (unat (?k ! 2)) NIL"
    by simp
  have b4: "\<And>d. \<forall>j<17. child_at (set_child (demo_hash_children d) 3 NIL) j \<noteq> Undefined"
    by code_simp
  have b5: "\<And>d. (5 :: nat) < 16 \<and> occupied (set_child (demo_hash_children d) 3 NIL) = [5]
      \<and> child_at (set_child (demo_hash_children d) 3 NIL) 5 = HashNode d"
    by code_simp
  have s1: "db demo_stored = Some demo_store2" by (simp add: demo_stored_def)
  have s2: "demo_store2 [5] = Some [1]" "demo_store2 [8] = Some [2]"
    by (simp_all add: demo_store2_def)
  have s3: "demo_dec2 [1] (hash demo_stored) = Inr (ShortNode [1, 2, 16] (ValueNode [7]) demo_flags)"
    by (simp add: demo_leaf_def)
  have s4: "demo_dec2 [2] (hash demo_stored) = Inr (FullNode demo_children demo_flags)"
    by simp
  have B: "u_remove demo_dec2 demo_stored 0 (FullNode (demo_hash_children [5]) demo_flags) ?k 2
       = Some (Inr (True, ShortNode [5, 1, 2, 16] (ValueNode [7]) (flags demo_stored)))"
    using remove_Full_collapse [OF h1 b2 b3 b4, where i = 5 and d = "[5]" and st = demo_store2
        and raw = "[1]" and ck = "[1, 2, 16]" and cv = "ValueNode [7]" and cfl = demo_flags
        and fl = demo_flags] b5 s1 s2 s3
    by simp
  have C: "u_remove demo_dec2 demo_stored 0 (FullNode (demo_hash_children [8]) demo_flags) ?k 2
       = Some (Inr (True, ShortNode [5] (HashNode [8]) (flags demo_stored)))"
    using remove_Full_collapse [OF h1 b2 b3 b4, where i = 5 and d = "[8]" and st = demo_store2
        and raw = "[2]" and child = "FullNode demo_children demo_flags"
        and fl = demo_flags] b5 s1 s2 s4
    by simp
  show ?thesis using A B C s1 s2 s3 s4 by simp
qed

section \<open>Mutations that change nothing\<close>

lemma resolveHash_key_irrelevant:
  "resolveHash dec t n k p = Inr rn \<Longrightarrow> resolveHash dec t n k' p' = Inr rn"
  by (auto simp: resolveHash_def MissingNodeError_new_one_arg empty_object_def
      split: option.splits sum.splits)

lemma resolveHash_root_update [simp]:
  "resolveHash dec (t\<lparr>root := r\<rparr>) n k p = resolveHash dec t n k p"
  by (simp add: resolveHash_def split: option.splits)

lemma resolveHash_Inr:
  "resolveHash dec t (HashNode d) k p = Inr rn \<Longrightarrow>
   \<exists>st raw. db t = Some st \<and> st d = Some raw \<and> dec raw (hash t) = Inr rn"
  by (auto simp: resolveHash_def MissingNodeError_new_one_arg empty_object_def
      split: option.splits sum.splits)

lemma u_get_root_update:
  "u_get dec (t\<lparr>root := r\<rparr>) fuel n k p = u_get dec t fuel n k p"
proof (induction dec t fuel n k p rule: u_get.induct)
  case (1 dec t fuel n k p)
  show ?case
  proof (cases "p \<le> length k")
    case False
    then show ?thesis by (simp add: u_get_assert)
  next
    case True
    then show ?thesis using 1
      by (cases n) (auto simp: u_get_cases split: option.splits sum.splits nat.splits)
  qed
qed

lemma u_get_Hash_resolved:
  assumes "resolveHash dec t (HashNode d) k p = Inr rn"
  shows "val_of (u_get dec t (Suc f) (HashNode d) k' p') = val_of (u_get dec t f rn k' p')"
proof (cases "p' \<le> length k'")
  case True
  from assms have r: "resolveHash dec t (HashNode d) k' p' = Inr rn"
    by (rule resolveHash_key_irrelevant)
  show ?thesis using True r
    by (simp add: u_get_Hash val_of_def split: option.splits sum.splits)
next
  case False
  then show ?thesis by (simp add: u_get_assert)
qed

lemma u_remove_not_found:
  assumes "u_remove dec t fuel n k p = Some (Inr (False, n'))"
  shows "(\<not> isHash n \<and> n' = n) \<or> (\<exists>d. n = HashNode d \<and> resolveHash dec t n k p = Inr n')"
  using assms
  apply (subst (asm) u_remove.simps)
  apply (cases n)
  apply (auto simp: Let_def
      split: if_splits option.splits sum.splits node.splits nat.splits)
  done

lemma u_insert_unchanged:
  assumes "u_insert dec t fuel n k p (ValueNode v) = Some (Inr (False, n'))"
  shows "(\<not> isHash n \<and> n' = n) \<or> (\<exists>d. n = HashNode d \<and> resolveHash dec t n k p = Inr n')"
  using assms
  apply (subst (asm) u_insert.simps)
  apply (cases n)
  apply (auto simp: Let_def fullNode_def
      split: if_splits option.splits sum.splits node.splits nat.splits)
  done

text \<open>
  Claim C7: when the remove walk reports \<open>found = false\<close> at a node, the node it
  returns is that node itself (no slot, key or shape changes in any frame); the one
  exception is a Hash node, for which it returns the node the store decodes for
  its digest, and every lookup through either gives the same answer (the lookup
  through the Hash node spends one resolution more).
\<close>

theorem remove_not_found_unchanged:
  assumes "u_remove dec t fuel n k p = Some (Inr (False, n'))"
  shows "((\<not> isHash n \<and> n' = n) \<or> (\<exists>d. n = HashNode d \<and> resolveHash dec t n k p = Inr n'))
    \<and> (\<forall>k' p' f. val_of (u_get dec t (Suc f) n k' p')
                   = val_of (u_get dec t (if isHash n then f else Suc f) n' k' p'))"
  using u_remove_not_found[OF assms] by (auto simp: u_get_Hash_resolved)

theorem remove_not_found_unchanged_witness:
  "u_remove demo_dec demo_trie 0 demo_leaf [1, 3, 16] 0 = Some (Inr (False, demo_leaf))
   \<and> \<not> isHash demo_leaf
   \<and> val_of (u_get demo_dec demo_trie 1 demo_leaf [1, 2, 16] 0) = Some (Inr (Some [7]))"
proof -
  have h: "u_remove demo_dec demo_trie 0 demo_leaf [1, 3, 16] 0 = Some (Inr (False, demo_leaf))"
    by code_simp
  have g: "val_of (u_get demo_dec demo_trie 1 demo_leaf [1, 2, 16] 0) = Some (Inr (Some [7]))"
    by code_simp
  show ?thesis
    using remove_not_found_unchanged [OF h] h g by (simp add: demo_leaf_def)
qed

lemma get_materialized:
  assumes "root t = HashNode d" "resolveHash dec t (HashNode d) k p = Inr rt"
  shows "val_of (get dec (Suc f) t k') = val_of (get dec f (t\<lparr>root := rt\<rparr>) k')"
proof -
  have "val_of (get dec (Suc f) t k') = val_of (u_get dec t (Suc f) (HashNode d) (toNibbles k') 0)"
    using assms(1) by (simp add: get_def val_of_def split: option.splits sum.splits)
  also have "\<dots> = val_of (u_get dec t f rt (toNibbles k') 0)"
    by (rule u_get_Hash_resolved[OF assms(2)])
  also have "\<dots> = val_of (get dec f (t\<lparr>root := rt\<rparr>) k')"
    by (simp add: get_def val_of_def u_get_root_update split: option.splits sum.splits)
  finally show ?thesis .
qed

text \<open>
  Claim C9: when the root is a Hash node, an \<^verbatim>\<open>insert\<close> whose walk reports no change
  and a \<^verbatim>\<open>remove\<close> whose walk finds nothing still assign to \<open>root\<close> the node the
  store decodes for the root's digest, and every \<^verbatim>\<open>get\<close> answers as before.
\<close>

theorem noop_through_hash_root:
  assumes "root t = HashNode d"
  shows
   "(u_insert dec t fuel (root t) (toNibbles ky) 0 (valueNode t v) = Some (Inr (False, rt)) \<longrightarrow>
       insert_trie dec fuel t ky v = Some (Inr (t\<lparr>root := rt\<rparr>))
       \<and> (\<exists>st raw. db t = Some st \<and> st d = Some raw \<and> dec raw (hash t) = Inr rt)
       \<and> (\<forall>k' f. val_of (get dec (Suc f) t k') = val_of (get dec f (t\<lparr>root := rt\<rparr>) k')))
    \<and> (u_remove dec t fuel (root t) (toNibbles ky) 0 = Some (Inr (False, rt)) \<longrightarrow>
       remove dec fuel t ky = Some (Inr (t\<lparr>root := rt\<rparr>))
       \<and> (\<exists>st raw. db t = Some st \<and> st d = Some raw \<and> dec raw (hash t) = Inr rt)
       \<and> (\<forall>k' f. val_of (get dec (Suc f) t k') = val_of (get dec f (t\<lparr>root := rt\<rparr>) k')))"
proof (intro conjI impI)
  assume a: "u_insert dec t fuel (root t) (toNibbles ky) 0 (valueNode t v) = Some (Inr (False, rt))"
  then show "insert_trie dec fuel t ky v = Some (Inr (t\<lparr>root := rt\<rparr>))"
    by (simp add: insert_trie_def)
  from a assms have r: "resolveHash dec t (HashNode d) (toNibbles ky) 0 = Inr rt"
    using u_insert_unchanged[of dec t fuel "root t" "toNibbles ky" 0 v rt]
    by (auto simp: valueNode_def)
  from r show "\<exists>st raw. db t = Some st \<and> st d = Some raw \<and> dec raw (hash t) = Inr rt"
    by (rule resolveHash_Inr)
  from r show "\<forall>k' f. val_of (get dec (Suc f) t k') = val_of (get dec f (t\<lparr>root := rt\<rparr>) k')"
    using get_materialized[OF assms] by blast
next
  assume a: "u_remove dec t fuel (root t) (toNibbles ky) 0 = Some (Inr (False, rt))"
  then show "remove dec fuel t ky = Some (Inr (t\<lparr>root := rt\<rparr>))"
    by (simp add: remove_def)
  from a assms have r: "resolveHash dec t (HashNode d) (toNibbles ky) 0 = Inr rt"
    using u_remove_not_found[of dec t fuel "root t" "toNibbles ky" 0 rt] by auto
  from r show "\<exists>st raw. db t = Some st \<and> st d = Some raw \<and> dec raw (hash t) = Inr rt"
    by (rule resolveHash_Inr)
  from r show "\<forall>k' f. val_of (get dec (Suc f) t k') = val_of (get dec f (t\<lparr>root := rt\<rparr>) k')"
    using get_materialized[OF assms] by blast
qed

theorem noop_through_hash_root_witness:
  "root demo_opened = HashNode [5]
   \<and> u_insert demo_dec demo_opened 1 (root demo_opened) (toNibbles [0x12]) 0
        (valueNode demo_opened [7]) = Some (Inr (False, demo_leaf))
   \<and> insert_trie demo_dec 1 demo_opened [0x12] [7] = Some (Inr (demo_opened\<lparr>root := demo_leaf\<rparr>))
   \<and> u_remove demo_dec demo_opened 1 (root demo_opened) (toNibbles [0x13]) 0
        = Some (Inr (False, demo_leaf))
   \<and> remove demo_dec 1 demo_opened [0x13] = Some (Inr (demo_opened\<lparr>root := demo_leaf\<rparr>))"
proof -
  have r: "root demo_opened = HashNode [5]"
    by (simp add: demo_opened_def)
  have i: "u_insert demo_dec demo_opened 1 (root demo_opened) (toNibbles [0x12]) 0
             (valueNode demo_opened [7]) = Some (Inr (False, demo_leaf))"
    by code_simp
  have d: "u_remove demo_dec demo_opened 1 (root demo_opened) (toNibbles [0x13]) 0
             = Some (Inr (False, demo_leaf))"
    by code_simp
  show ?thesis
    using noop_through_hash_root [OF r, where dec = demo_dec and fuel = 1 and ky = "[0x12]"
        and v = "[7]" and rt = demo_leaf]
      noop_through_hash_root [OF r, where dec = demo_dec and fuel = 1 and ky = "[0x13]"
        and rt = demo_leaf] r i d
    by simp
qed

section \<open>Well-formed trees and their content\<close>

lemma wf_Full: "well_formed (FullNode cs fl) \<longleftrightarrow> length cs = 17 \<and> (\<forall>i<17. slot_ok i (cs ! i))"
  by (auto simp: slot_ok_def child_at_def)

declare well_formed.simps(3) [simp del]

lemma term_key_Cons: "term_key (x # r) \<longleftrightarrow> (if r = [] then x = 16 else x < 16 \<and> term_key r)"
  by (auto simp: term_key_def)

lemma term_key_Nil [simp]: "\<not> term_key []"
  by (simp add: term_key_def)

lemma plain_simps [simp]: "plain []" "plain (x # r) \<longleftrightarrow> x < 16 \<and> plain r"
  "plain (a @ b) \<longleftrightarrow> plain a \<and> plain b"
  by (auto simp: plain_def)

lemma term_key_append_plain: "plain a \<Longrightarrow> term_key (a @ b) \<longleftrightarrow> term_key b"
  by (induction a) (auto simp: term_key_Cons)

lemma term_key_prefix_eq:
  "term_key a \<Longrightarrow> term_key b \<Longrightarrow> take (length a) b = a \<Longrightarrow> a = b"
proof (induction a arbitrary: b)
  case Nil then show ?case by simp
next
  case (Cons x a)
  then obtain y b' where b: "b = y # b'" by (cases b) auto
  with Cons show ?case by (auto simp: term_key_Cons split: if_splits)
qed

lemma plain_not_term: "plain a \<Longrightarrow> \<not> term_key a"
  by (induction a) (auto simp: term_key_Cons)

lemma term_key_take_plain: "term_key ks \<Longrightarrow> m < length ks \<Longrightarrow> plain (take m ks)"
proof (induction ks arbitrary: m)
  case Nil then show ?case by simp
next
  case (Cons x ks)
  then show ?case by (cases m) (auto simp: term_key_Cons split: if_splits)
qed

lemma plain_take: "plain ks \<Longrightarrow> plain (take m ks)"
  by (auto simp: plain_def dest: in_set_takeD)

lemma common_len_le: "common_len a b \<le> length a" "common_len a b \<le> length b"
  by (induction a b rule: common_len.induct) auto

lemma common_len_take: "take (common_len a b) a = take (common_len a b) b"
  by (induction a b rule: common_len.induct) auto

lemma common_len_neq:
  "common_len a b < length a \<Longrightarrow> common_len a b < length b \<Longrightarrow>
   a ! common_len a b \<noteq> b ! common_len a b"
  by (induction a b rule: common_len.induct) auto

lemma common_len_full: "common_len a b = length b \<longleftrightarrow> take (length b) a = b"
  by (induction a b rule: common_len.induct) auto

lemma startsWith_iff:
  "p \<le> length k \<Longrightarrow> startsWith k nk p \<longleftrightarrow> take (length nk) (drop p k) = nk"
proof
  assume "p \<le> length k" and "take (length nk) (drop p k) = nk"
  then have "length (take (length nk) (drop p k)) = length nk"
    by simp
  then have "length nk \<le> length (drop p k)"
    by simp
  then show "startsWith k nk p"
    using \<open>take (length nk) (drop p k) = nk\<close> \<open>p \<le> length k\<close> by (simp add: startsWith_def)
qed (simp add: startsWith_def)

lemma wf_not_Undefined [simp]: "well_formed n \<Longrightarrow> n \<noteq> Undefined"
  by auto

lemma wf_not_Value: "well_formed n \<Longrightarrow> \<not> isValue n"
  by (cases n) auto

lemma wf_Full_child:
  "well_formed (FullNode cs fl) \<Longrightarrow> i < 16 \<Longrightarrow> well_formed (child_at cs i) \<and> child_at cs i \<in> set cs"
  by (auto simp: child_at_def wf_Full slot_ok_def)

lemma wf_Full_slot16:
  assumes "well_formed (FullNode cs fl)"
  shows "child_at cs 16 = NIL \<or> (\<exists>d. child_at cs 16 = ValueNode d)"
proof -
  from assms have "slot_ok 16 (cs ! 16)" "length cs = 17" by (simp_all add: wf_Full)
  then show ?thesis by (cases "cs ! 16") (auto simp: child_at_def slot_ok_def)
qed

lemma unat_lt16: "(x :: byte) < 16 \<Longrightarrow> unat x < 16"
  by (simp add: word_less_nat_alt)

lemma drop_split: "p < length k \<Longrightarrow> drop p k = k ! p # drop (Suc p) k"
  by (simp add: Cons_nth_drop_Suc)

lemma term_key_pos: "term_key (drop p k) \<Longrightarrow> p < length k"
  by (cases "p < length k") auto

lemma get_lk:
  "well_formed n \<Longrightarrow> term_key (drop p k) \<Longrightarrow>
   u_get dec t fuel n k p = Some (Inr (lookup n (drop p k), n, False))"
proof (induction n arbitrary: p)
  case NIL
  then show ?case using term_key_pos[of p k] by (simp add: u_get_NIL)
next
  case (ShortNode nk v fl)
  have p: "p < length k" using ShortNode.prems(2) by (rule term_key_pos)
  show ?case
  proof (cases "take (length nk) (drop p k) = nk")
    case False
    then show ?thesis using p by (simp add: u_get_Short startsWith_iff)
  next
    case True
    then have sw: "startsWith k nk p" using p by (simp add: startsWith_iff)
    then have le: "p + length nk \<le> length k" by (simp add: startsWith_def)
    have split: "drop p k = nk @ drop (p + length nk) k"
      using True by (metis append_take_drop_id drop_drop add.commute)
    show ?thesis
    proof (cases "isValue v")
      case True
      then obtain d where "v = ValueNode d" by (cases v) auto
      then show ?thesis using p sw le \<open>take (length nk) (drop p k) = nk\<close>
        by (simp add: u_get_Short u_get_Value)
    next
      case False
      with ShortNode.prems(1) have "plain nk" "well_formed v" by auto
      with ShortNode.prems(2) split have "term_key (drop (p + length nk) k)"
        by (metis term_key_append_plain)
      from ShortNode.IH[OF \<open>well_formed v\<close> this] show ?thesis
        using p sw \<open>take (length nk) (drop p k) = nk\<close> by (simp add: u_get_Short add.commute)
    qed
  qed
next
  case (FullNode cs fl)
  have p: "p < length k" using FullNode.prems(2) by (rule term_key_pos)
  have split: "drop p k = k ! p # drop (Suc p) k" using p by (rule drop_split)
  have ck: "child_by_key cs k p = child_at cs (unat (k ! p))"
    using p by (simp add: child_by_key_def)
  show ?case
  proof (cases "drop (Suc p) k = []")
    case True
    with FullNode.prems(2) split have x: "k ! p = 16" by (simp add: term_key_Cons)
    from wf_Full_slot16[OF FullNode.prems(1)] show ?thesis
      using p x ck split True by (auto simp: u_get_Full u_get_NIL u_get_Value)
  next
    case False
    with FullNode.prems(2) split have x: "k ! p < 16" and tk: "term_key (drop (Suc p) k)"
      by (simp_all add: term_key_Cons)
    from wf_Full_child[OF FullNode.prems(1) unat_lt16[OF x]]
    have w: "well_formed (child_at cs (unat (k ! p)))" and m: "child_at cs (unat (k ! p)) \<in> set cs"
      by simp_all
    from FullNode.IH[OF m w tk] show ?thesis
      using p ck split by (simp add: u_get_Full)
  qed
qed simp_all

lemma wf_Short: "well_formed (ShortNode nk v fl) \<longleftrightarrow> key_ok nk v"
  by (simp add: key_ok_def)

lemma u_insert_NIL_any:
  "p \<le> length k \<Longrightarrow> u_insert dec t fuel NIL k p val = Some (Inr (True, attach t (drop p k) val))"
  by (cases "p = length k")
     (auto simp: u_insert_end u_insert_NIL attach_def shortNode_def slice_from_def)

lemma lk_attach: "lookup (attach t rest val) r = lookup (ShortNode rest val fl) r"
  by (simp add: attach_def)

lemma slot_ok_attach:
  assumes "key_ok (y # rest) val"
  shows "slot_ok (unat y) (attach t rest val) \<and> unat y < 17"
proof (cases "isValue val")
  case True
  with assms have tk: "term_key (y # rest)" by (simp add: key_ok_def)
  show ?thesis
  proof (cases "rest = []")
    case True
    with tk have "y = 16" by (simp add: term_key_Cons)
    with True \<open>isValue val\<close> show ?thesis by (simp add: slot_ok_def attach_def)
  next
    case False
    with tk have "y < 16" "term_key rest" by (simp_all add: term_key_Cons)
    with False \<open>isValue val\<close> unat_lt16[of y] show ?thesis
      by (simp add: slot_ok_def attach_def)
  qed
next
  case False
  with assms have "y < 16" "plain rest" "well_formed val" by (simp_all add: key_ok_def)
  with False unat_lt16[of y] show ?thesis
    by (simp add: slot_ok_def attach_def)
qed

lemma wf_Full_empty: "well_formed (FullNode (replicate 17 NIL) fl)"
  by (simp add: wf_Full slot_ok_def)

lemma wf_Full_update:
  "well_formed (FullNode cs fl) \<Longrightarrow> i < 17 \<Longrightarrow> slot_ok i c \<Longrightarrow> well_formed (FullNode (set_child cs i c) fl')"
  by (auto simp: wf_Full set_child_def nth_list_update)

lemma length_set_child: "i < length cs \<Longrightarrow> length (set_child cs i c) = length cs"
  by (simp add: set_child_def)

lemma lk_leaf:
  "term_key ks \<Longrightarrow> term_key ks' \<Longrightarrow>
   lookup (ShortNode ks (ValueNode v) fl) ks' = (if ks' = ks then Some v else None)"
  using term_key_prefix_eq[of ks ks'] by auto

lemma prefixLen_drop: "prefixLen k nk p = common_len (drop p k) nk"
  by (simp add: prefixLen_def)

lemma take_eq_append: "take (length a) ks = a \<Longrightarrow> ks = a @ drop (length a) ks"
  by (metis append_take_drop_id)

section \<open>Insertion into a well-formed tree\<close>

lemma ins_postI:
  assumes "r = Some (Inr (d, n'))" "well_formed n'"
    and "\<And>ks'. term_key ks' \<Longrightarrow> lookup n' ks' = (if ks' = ks then Some v else lookup n ks')"
    and "d \<longleftrightarrow> lookup n ks \<noteq> Some v" and "\<not> d \<Longrightarrow> n' = n"
  shows "ins_post n ks v r"
  unfolding ins_post_def using assms by blast

lemma ins_NIL:
  assumes "term_key (drop p k)"
  shows "ins_post NIL (drop p k) v (u_insert dec t fuel NIL k p (ValueNode v))"
proof (rule ins_postI)
  show "u_insert dec t fuel NIL k p (ValueNode v)
          = Some (Inr (True, ShortNode (drop p k) (ValueNode v) (flags t)))"
    using term_key_pos[OF assms] by (simp add: u_insert_NIL shortNode_def slice_from_def)
  show "well_formed (ShortNode (drop p k) (ValueNode v) (flags t))" using assms by simp
  show "lookup (ShortNode (drop p k) (ValueNode v) (flags t)) ks'
          = (if ks' = drop p k then Some v else lookup NIL ks')" if "term_key ks'" for ks'
    using lk_leaf[OF assms that] by simp
qed simp_all

lemma ins_Short_leaf:
  assumes "term_key (drop p k)" "term_key nk" "take (length nk) (drop p k) = nk"
  shows "ins_post (ShortNode nk (ValueNode nd) fl) (drop p k) v
           (u_insert dec t fuel (ShortNode nk (ValueNode nd) fl) k p (ValueNode v))"
proof -
  have p: "p < length k" using assms(1) by (rule term_key_pos)
  have eq: "nk = drop p k" using assms by (metis term_key_prefix_eq)
  then have len: "p + length nk = length k" using p by simp
  have ml: "prefixLen k nk p = length nk"
    using assms(3) by (simp add: prefixLen_drop common_len_full)
  have inner: "u_insert dec t fuel (ValueNode nd) k (p + length nk) (ValueNode v)
                 = Some (Inr (nd \<noteq> v, ValueNode v))"
    using len by (simp add: u_insert_end)
  have res: "u_insert dec t fuel (ShortNode nk (ValueNode nd) fl) k p (ValueNode v)
      = Some (Inr (nd \<noteq> v, if nd \<noteq> v then ShortNode nk (ValueNode v) (flags t)
                              else ShortNode nk (ValueNode nd) fl))"
    by (simp add: u_insert_Short_match[OF p ml] inner shortNode_def)
  show ?thesis
  proof (rule ins_postI[OF res])
    show "well_formed (if nd \<noteq> v then ShortNode nk (ValueNode v) (flags t)
              else ShortNode nk (ValueNode nd) fl)"
      using assms(2) by simp
    show "lookup (if nd \<noteq> v then ShortNode nk (ValueNode v) (flags t)
              else ShortNode nk (ValueNode nd) fl) ks'
          = (if ks' = drop p k then Some v else lookup (ShortNode nk (ValueNode nd) fl) ks')"
      if "term_key ks'" for ks'
      using that assms(2) by (simp add: eq[symmetric] lk_leaf del: lookup.simps)
    show "(nd \<noteq> v) = (lookup (ShortNode nk (ValueNode nd) fl) (drop p k) \<noteq> Some v)"
      using assms(2) by (simp add: eq[symmetric] lk_leaf del: lookup.simps)
  qed simp
qed

lemma ins_Short_ext:
  assumes tk: "term_key (drop p k)" and pl: "plain nk" and wv: "well_formed v0"
    and pre: "take (length nk) (drop p k) = nk"
    and IH: "ins_post v0 (drop (p + length nk) k) v
               (u_insert dec t fuel v0 k (p + length nk) (ValueNode v))"
  shows "ins_post (ShortNode nk v0 fl) (drop p k) v
           (u_insert dec t fuel (ShortNode nk v0 fl) k p (ValueNode v))"
proof -
  have p: "p < length k" using tk by (rule term_key_pos)
  have ml: "prefixLen k nk p = length nk"
    using pre by (simp add: prefixLen_drop common_len_full)
  have ks: "drop p k = nk @ drop (p + length nk) k"
    using take_eq_append[OF pre] by (simp add: add.commute)
  from IH obtain d nn where
    r: "u_insert dec t fuel v0 k (p + length nk) (ValueNode v) = Some (Inr (d, nn))"
    and wn: "well_formed nn"
    and lkn: "\<And>r'. term_key r' \<Longrightarrow>
                lookup nn r' = (if r' = drop (p + length nk) k then Some v else lookup v0 r')"
    and dd: "d \<longleftrightarrow> lookup v0 (drop (p + length nk) k) \<noteq> Some v"
    and same: "\<not> d \<Longrightarrow> nn = v0"
    by (auto simp: ins_post_def)
  have res: "u_insert dec t fuel (ShortNode nk v0 fl) k p (ValueNode v)
               = Some (Inr (d, if d then ShortNode nk nn (flags t) else ShortNode nk v0 fl))"
    by (simp add: u_insert_Short_match[OF p ml] r shortNode_def)
  have well_formed': "well_formed (ShortNode nk nn (flags t))"
    using wn pl wf_not_Value[OF wn] by simp
  have lookup': "lookup (ShortNode nk nn fl') ks' = (if ks' = drop p k then Some v else lookup (ShortNode nk v0 fl) ks')"
    if "term_key ks'" for ks' fl'
  proof (cases "take (length nk) ks' = nk")
    case True
    then have s: "ks' = nk @ drop (length nk) ks'" by (rule take_eq_append)
    with that pl have "term_key (drop (length nk) ks')" by (metis term_key_append_plain)
    from lkn[OF this] True s ks show ?thesis
      by (metis append_eq_conv_conj same_append_eq lookup.simps(3))
  next
    case False
    with pre show ?thesis by auto
  qed
  have lkold: "lookup (ShortNode nk v0 fl) (drop p k) = lookup v0 (drop (p + length nk) k)"
    using pre by (simp add: add.commute)
  show ?thesis
  proof (rule ins_postI[OF res])
    show "well_formed (if d then ShortNode nk nn (flags t) else ShortNode nk v0 fl)"
      using well_formed' wv pl wf_not_Value[OF wv] by simp
    show "lookup (if d then ShortNode nk nn (flags t) else ShortNode nk v0 fl) ks'
          = (if ks' = drop p k then Some v else lookup (ShortNode nk v0 fl) ks')"
      if "term_key ks'" for ks'
      using lookup'[OF that, of "flags t"] lookup'[OF that, of fl] same by (auto simp del: lookup.simps)
    show "d = (lookup (ShortNode nk v0 fl) (drop p k) \<noteq> Some v)"
      using dd lkold by simp
  qed simp
qed

lemma child_at_set_child:
  "i < length cs \<Longrightarrow> child_at (set_child cs i c) j = (if j = i then c else child_at cs j)"
  by (simp add: set_child_def child_at_def)

lemma term_key_nibble_le: "term_key (x # r) \<Longrightarrow> unat x < 17"
  by (auto simp: term_key_Cons word_less_nat_alt split: if_splits)

lemma ins_Full:
  assumes wfF: "well_formed (FullNode cs fl)" and tk: "term_key (drop p k)"
    and inner: "u_insert dec t fuel (child_at cs (unat (k ! p))) k (Suc p) (ValueNode v)
                   = Some (Inr (d, nn))"
    and ok: "slot_ok (unat (k ! p)) nn"
    and lkn: "\<And>r. term_key (k ! p # r) \<Longrightarrow>
                lookup nn r = (if r = drop (Suc p) k then Some v
                           else lookup (child_at cs (unat (k ! p))) r)"
    and dd: "d \<longleftrightarrow> lookup (child_at cs (unat (k ! p))) (drop (Suc p) k) \<noteq> Some v"
  shows "ins_post (FullNode cs fl) (drop p k) v
           (u_insert dec t fuel (FullNode cs fl) k p (ValueNode v))"
proof -
  define i where "i = unat (k ! p)"
  define fl' where "fl' = fl\<lparr>fl_hash := None, fl_dirty := True\<rparr>"
  have p: "p < length k" using tk by (rule term_key_pos)
  have ks: "drop p k = k ! p # drop (Suc p) k" using p by (rule drop_split)
  have i17: "i < 17" using tk ks term_key_nibble_le[of "k ! p" "drop (Suc p) k"]
    by (simp add: i_def)
  have len: "length cs = 17" using wfF by (simp add: wf_Full)
  have res: "u_insert dec t fuel (FullNode cs fl) k p (ValueNode v)
      = Some (Inr (d, if d then FullNode (set_child cs i nn) fl' else FullNode cs fl))"
    using p inner
    by (simp add: u_insert_Full child_by_key_def set_child_by_key_def i_def fl'_def)
  have old: "lookup (FullNode cs fl) (drop p k) = lookup (child_at cs i) (drop (Suc p) k)"
    by (subst ks) (simp add: i_def)
  show ?thesis
  proof (rule ins_postI[OF res])
    show "well_formed (if d then FullNode (set_child cs i nn) fl' else FullNode cs fl)"
      using wfF wf_Full_update[OF wfF i17] ok by (simp add: i_def)
    show "d = (lookup (FullNode cs fl) (drop p k) \<noteq> Some v)"
      using dd old by (simp add: i_def)
    show "lookup (if d then FullNode (set_child cs i nn) fl' else FullNode cs fl) ks'
          = (if ks' = drop p k then Some v else lookup (FullNode cs fl) ks')"
      if t': "term_key ks'" for ks'
    proof (cases d)
      case False
      with dd old show ?thesis by (auto simp: i_def simp del: lookup.simps)
    next
      case True
      from t' obtain z r where zr: "ks' = z # r" by (cases ks') auto
      show ?thesis
      proof (cases "z = k ! p")
        case True
        with t' zr have "term_key (k ! p # r)" by simp
        from lkn[OF this] \<open>d\<close> zr True ks len i17 show ?thesis
          by (simp add: child_at_set_child i_def)
      next
        case False
        then have "unat z \<noteq> i" by (simp add: i_def word_unat_eq_iff)
        with \<open>d\<close> zr False ks len i17 show ?thesis
          by (simp add: child_at_set_child)
      qed
    qed
  qed simp
qed

lemma ins_Full_value:
  assumes wfF: "well_formed (FullNode cs fl)" and tk: "term_key (drop p k)" and x: "k ! p = 16"
  shows "ins_post (FullNode cs fl) (drop p k) v
           (u_insert dec t fuel (FullNode cs fl) k p (ValueNode v))"
proof -
  have p: "p < length k" using tk by (rule term_key_pos)
  have ks: "drop p k = k ! p # drop (Suc p) k" using p by (rule drop_split)
  have rest: "drop (Suc p) k = []" using tk ks x by (simp add: term_key_Cons split: if_splits)
  then have e: "Suc p = length k" using p by simp
  have u16: "unat (k ! p) = 16" using x by simp
  from wf_Full_slot16[OF wfF] show ?thesis
  proof
    assume c: "child_at cs 16 = NIL"
    show ?thesis
    proof (rule ins_Full[OF wfF tk, where d = True and nn = "ValueNode v"])
      show "u_insert dec t fuel (child_at cs (unat (k ! p))) k (Suc p) (ValueNode v)
              = Some (Inr (True, ValueNode v))"
        using e c u16 by (simp add: u_insert_end)
    qed (auto simp: u16 c rest slot_ok_def x term_key_Cons split: if_splits)
  next
    assume "\<exists>nd. child_at cs 16 = ValueNode nd"
    then obtain nd where c: "child_at cs 16 = ValueNode nd" ..
    show ?thesis
    proof (rule ins_Full[OF wfF tk, where d = "nd \<noteq> v" and nn = "ValueNode v"])
      show "u_insert dec t fuel (child_at cs (unat (k ! p))) k (Suc p) (ValueNode v)
              = Some (Inr (nd \<noteq> v, ValueNode v))"
        using e c u16 by (simp add: u_insert_end)
    qed (auto simp: u16 c rest slot_ok_def x term_key_Cons split: if_splits)
  qed
qed

lemma ins_Full_child:
  assumes wfF: "well_formed (FullNode cs fl)" and tk: "term_key (drop p k)" and x: "k ! p \<noteq> 16"
    and IH: "ins_post (child_at cs (unat (k ! p))) (drop (Suc p) k) v
               (u_insert dec t fuel (child_at cs (unat (k ! p))) k (Suc p) (ValueNode v))"
  shows "ins_post (FullNode cs fl) (drop p k) v
           (u_insert dec t fuel (FullNode cs fl) k p (ValueNode v))"
proof -
  have p: "p < length k" using tk by (rule term_key_pos)
  have ks: "drop p k = k ! p # drop (Suc p) k" using p by (rule drop_split)
  have u16: "unat (k ! p) \<noteq> 16" using x by (simp add: word_unat_eq_iff)
  from IH obtain d nn where
    r: "u_insert dec t fuel (child_at cs (unat (k ! p))) k (Suc p) (ValueNode v)
          = Some (Inr (d, nn))"
    and wn: "well_formed nn"
    and lkn: "\<And>r'. term_key r' \<Longrightarrow>
                lookup nn r' = (if r' = drop (Suc p) k then Some v
                            else lookup (child_at cs (unat (k ! p))) r')"
    and dd: "d \<longleftrightarrow> lookup (child_at cs (unat (k ! p))) (drop (Suc p) k) \<noteq> Some v"
    by (auto simp: ins_post_def)
  show ?thesis
  proof (rule ins_Full[OF wfF tk r _ _ dd])
    show "slot_ok (unat (k ! p)) nn" using wn u16 by (simp add: slot_ok_def)
    show "lookup nn r = (if r = drop (Suc p) k then Some v else lookup (child_at cs (unat (k ! p))) r)"
      if "term_key (k ! p # r)" for r
      using that x lkn[of r] by (simp add: term_key_Cons split: if_splits)
  qed
qed

lemma lk_Short_append:
  "lookup (ShortNode (a @ b) v fl) ks
     = (if take (length a) ks = a then lookup (ShortNode b v fl) (drop (length a) ks) else None)"
proof (cases "take (length a) ks = a")
  case True
  then have "ks = a @ drop (length a) ks" by (rule take_eq_append)
  then obtain r where "ks = a @ r" ..
  then show ?thesis by simp
next
  case False
  have "take (length a + length b) ks \<noteq> a @ b"
  proof
    assume e: "take (length a + length b) ks = a @ b"
    have "take (length a) ks = take (length a) (take (length a + length b) ks)"
      by simp
    also have "\<dots> = take (length a) (a @ b)"
      by (simp only: e)
    finally show False using False by simp
  qed
  then show ?thesis using False by simp
qed

lemma lk_Short_Cons:
  "lookup (ShortNode (y # b) v fl) ks
     = (case ks of [] \<Rightarrow> None | z # r \<Rightarrow> if z = y then lookup (ShortNode b v fl) r else None)"
  by (cases ks) auto

lemma lk_leaf_tail:
  assumes "term_key (x # a)" "term_key (x # b)"
  shows "lookup (ShortNode a (ValueNode v) fl) b = (if b = a then Some v else None)"
proof (cases "a = []")
  case True
  with assms show ?thesis by (auto simp: term_key_Cons split: if_splits)
next
  case False
  with assms have "term_key a" "term_key b" by (auto simp: term_key_Cons split: if_splits)
  then show ?thesis by (rule lk_leaf)
qed

lemma key_ok_suffix:
  assumes "key_ok (c @ r) v" "plain c" "r \<noteq> []"
  shows "key_ok r v"
  using assms by (auto simp: key_ok_def term_key_append_plain)

lemma key_ok_prefix_term:
  assumes "key_ok nk v0" "term_key ks" "take (length ks) nk = ks"
  shows "length nk = length ks"
proof (cases "isValue v0")
  case True
  with assms(1) have "term_key nk" by (simp add: key_ok_def)
  from term_key_prefix_eq[OF assms(2) this assms(3)] show ?thesis by simp
next
  case False
  with assms(1) have "plain nk" by (simp add: key_ok_def)
  then have "plain (take (length ks) nk)" by (rule plain_take)
  with assms(2,3) show ?thesis by (simp add: plain_not_term)
qed

lemma child_at_replicate: "child_at (replicate n NIL) j = (if j < n then NIL else Undefined)"
  by (simp add: child_at_def)

lemma lk_branch:
  assumes "a < 17" "b < 17"
  shows "lookup (FullNode (set_child (set_child (replicate 17 NIL) a n1) b n2) fl) (z # r)
     = (if unat z = b then lookup n2 r else if unat z = a then lookup n1 r else None)"
  using assms by (simp add: child_at_set_child length_set_child child_at_replicate)

lemma wf_branch:
  assumes "a < 17" "b < 17" "slot_ok a n1" "slot_ok b n2"
  shows "well_formed (FullNode (set_child (set_child (replicate 17 NIL) a n1) b n2) fl)"
  by (rule wf_Full_update[OF wf_Full_update[OF wf_Full_empty[of fl] assms(1,3)] assms(2,4)])

lemma ins_split:
  assumes ko: "key_ok nk v0" and tk: "term_key (drop p k)"
    and ne: "common_len (drop p k) nk \<noteq> length nk"
  shows "ins_post (ShortNode nk v0 fl) (drop p k) v
           (u_insert dec t fuel (ShortNode nk v0 fl) k p (ValueNode v))"
proof -
  define ks where "ks = drop p k"
  define ml where "ml = common_len ks nk"
  define c where "c = take ml ks"
  define x where "x = ks ! ml"
  define y where "y = nk ! ml"
  define ksr where "ksr = drop (Suc ml) ks"
  define nkr where "nkr = drop (Suc ml) nk"
  define n1 where "n1 = attach t nkr v0"
  define n2 where "n2 = attach t ksr (ValueNode v)"
  define branch where
    "branch = FullNode (set_child (set_child (replicate 17 NIL) (unat y) n1) (unat x) n2) (flags t)"
  define res where "res = (if ml = 0 then branch else ShortNode c branch (flags t))"
  have tks: "term_key ks" using tk by (simp add: ks_def)
  have p: "p < length k" using tk by (rule term_key_pos)
  have f1: "ml < length nk"
    using ne common_len_le(2)[of ks nk] by (simp add: ml_def ks_def)
  have f2: "ml < length ks"
  proof (rule ccontr)
    assume "\<not> ml < length ks"
    with common_len_le(1)[of ks nk] have e: "ml = length ks" by (simp add: ml_def)
    have "take (length ks) nk = ks"
      using common_len_take[of ks nk] e by (simp add: ml_def)
    from key_ok_prefix_term[OF ko tks this] f1 e show False by simp
  qed
  have cnk: "c = take ml nk" using common_len_take[of ks nk] by (simp add: c_def ml_def)
  have xy: "x \<noteq> y" using common_len_neq[of ks nk] f1 f2 by (simp add: x_def y_def ml_def)
  have pc: "plain c" using term_key_take_plain[OF tks f2] by (simp add: c_def)
  have lc: "length c = ml" using f2 by (simp add: c_def)
  have ks_eq: "ks = c @ x # ksr"
    using id_take_nth_drop[OF f2] by (simp add: c_def x_def ksr_def)
  have nk_eq: "nk = c @ y # nkr"
    using id_take_nth_drop[OF f1] by (simp add: cnk y_def nkr_def)
  have ko1: "key_ok (y # nkr) v0"
    using key_ok_suffix[of c "y # nkr" v0] ko pc nk_eq by simp
  have ko2: "key_ok (x # ksr) (ValueNode v)"
    using tks pc ks_eq term_key_append_plain[of c "x # ksr"] by (simp add: key_ok_def)
  have tx: "term_key (x # ksr)" using ko2 by (simp add: key_ok_def)
  have s1: "slot_ok (unat y) n1" "unat y < 17"
    using slot_ok_attach[OF ko1, of t] by (simp_all add: n1_def)
  have s2: "slot_ok (unat x) n2" "unat x < 17"
    using slot_ok_attach[OF ko2, of t] by (simp_all add: n2_def)
  have wb: "well_formed branch"
    unfolding branch_def by (rule wf_branch[OF s1(2) s2(2) s1(1) s2(1)])
  have pl: "prefixLen k nk p = ml" by (simp add: prefixLen_drop ml_def ks_def)
  have i1: "u_insert dec t fuel NIL nk (Suc ml) v0 = Some (Inr (True, n1))"
    using f1 by (simp add: u_insert_NIL_any n1_def nkr_def)
  have i2: "u_insert dec t fuel NIL k (Suc (p + ml)) (ValueNode v) = Some (Inr (True, n2))"
    using f2 by (simp add: u_insert_NIL_any n2_def ksr_def ks_def add.commute)
  have kx: "k ! (p + ml) = x" using f2 by (simp add: x_def ks_def)
  have sl: "slice_buf k p (p + ml) = c" by (simp add: slice_buf_def c_def ks_def)
  have pml: "p + ml < length k" using f2 by (simp add: ks_def)
  have ev: "u_insert dec t fuel (ShortNode nk v0 fl) k p (ValueNode v) = Some (Inr (True, res))"
    using ne f1 pml
    by (simp add: u_insert_Short_split[OF p] pl i1 i2 set_child_by_key_def kx sl Let_def
        res_def branch_def shortNode_def y_def)
  have lkres: "lookup res ks' = (if take ml ks' = c then lookup branch (drop ml ks') else None)" for ks'
    using lc by (cases "ml = 0") (auto simp: res_def)
  have lkold: "lookup (ShortNode nk v0 fl) ks'
      = (if take ml ks' = c
         then (case drop ml ks' of [] \<Rightarrow> None
               | z # r \<Rightarrow> if z = y then lookup (ShortNode nkr v0 fl) r else None)
         else None)" for ks'
    unfolding nk_eq by (simp only: lk_Short_append lk_Short_Cons lc)
  have lkb: "lookup branch (z # r)
      = (if z = x then lookup (ShortNode ksr (ValueNode v) fl) r
         else if z = y then lookup (ShortNode nkr v0 fl) r else None)" for z r
    unfolding branch_def
    by (simp only: lk_branch[OF s1(2) s2(2)] n1_def n2_def lk_attach[where fl = fl]
        word_unat_eq_iff[symmetric])
  have lkb0: "lookup branch [] = None" by (simp add: branch_def)
  have main: "lookup res ks' = (if ks' = ks then Some v else lookup (ShortNode nk v0 fl) ks')"
    if t': "term_key ks'" for ks'
  proof (cases "take ml ks' = c")
    case False
    then have "ks' \<noteq> ks" by (auto simp: c_def)
    with False show ?thesis by (simp only: lkres lkold if_False)
  next
    case True
    show ?thesis
    proof (cases "drop ml ks'")
      case Nil
      then have "length ks' \<le> ml" by simp
      with f2 have "ks' \<noteq> ks" by auto
      with True Nil show ?thesis by (simp only: lkres lkold lkb0 if_True list.case if_False)
    next
      case (Cons z r)
      have k': "ks' = c @ z # r"
        using True Cons by (metis append_take_drop_id)
      show ?thesis
      proof (cases "z = x")
        case zx: True
        from t' pc k' zx have "term_key (x # r)"
          using term_key_append_plain[of c "x # r"] by simp
        from lk_leaf_tail[OF tx this] have
          "lookup (ShortNode ksr (ValueNode v) fl) r = (if r = ksr then Some v else None)" .
        moreover have "ks' = ks \<longleftrightarrow> r = ksr" using k' ks_eq zx by simp
        ultimately show ?thesis
          using True Cons zx xy by (simp only: lkres lkold lkb if_True list.case) simp
      next
        case zx: False
        then have "ks' \<noteq> ks" using k' ks_eq by auto
        with True Cons zx show ?thesis
          by (simp only: lkres lkold lkb if_True list.case if_False)
      qed
    qed
  qed
  have wres: "well_formed res"
    using wb pc by (auto simp: res_def wf_not_Value)
  have dk: "drop ml ks = x # ksr"
    by (simp add: x_def ksr_def Cons_nth_drop_Suc[OF f2])
  have oldks: "lookup (ShortNode nk v0 fl) ks = None"
    using xy by (simp add: lkold dk c_def del: lookup.simps)
  show ?thesis
    unfolding ks_def[symmetric]
  proof (rule ins_postI)
    show "u_insert dec t fuel (ShortNode nk v0 fl) k p (ValueNode v) = Some (Inr (True, res))"
      by (rule ev)
    show "well_formed res" by (rule wres)
    show "lookup res ks' = (if ks' = ks then Some v else lookup (ShortNode nk v0 fl) ks')"
      if "term_key ks'" for ks' by (rule main[OF that])
    show "True = (lookup (ShortNode nk v0 fl) ks \<noteq> Some v)" using oldks by simp
  qed simp
qed

lemma ins_ok:
  "well_formed n \<Longrightarrow> term_key (drop p k) \<Longrightarrow>
   ins_post n (drop p k) v (u_insert dec t fuel n k p (ValueNode v))"
proof (induction n arbitrary: p)
  case NIL
  then show ?case by (simp add: ins_NIL)
next
  case (ShortNode nk v0 fl)
  have ko: "key_ok nk v0" using ShortNode.prems(1) by (simp only: wf_Short)
  show ?case
  proof (cases "common_len (drop p k) nk = length nk")
    case False
    from ins_split[OF ko ShortNode.prems(2) False] show ?thesis .
  next
    case True
    then have pre: "take (length nk) (drop p k) = nk" by (simp add: common_len_full)
    show ?thesis
    proof (cases "isValue v0")
      case True
      then obtain nd where v0: "v0 = ValueNode nd" by (cases v0) auto
      with ko have "term_key nk" by (simp add: key_ok_def)
      from ins_Short_leaf[OF ShortNode.prems(2) this pre] v0 show ?thesis by simp
    next
      case False
      with ko have pl: "plain nk" and wv: "well_formed v0" by (simp_all add: key_ok_def)
      have "drop p k = nk @ drop (p + length nk) k"
        using take_eq_append[OF pre] by (simp add: add.commute)
      with ShortNode.prems(2) pl have "term_key (drop (p + length nk) k)"
        using term_key_append_plain[of nk "drop (p + length nk) k"] by simp
      from ins_Short_ext[OF ShortNode.prems(2) pl wv pre ShortNode.IH[OF wv this]]
      show ?thesis .
    qed
  qed
next
  case (FullNode cs fl)
  have p: "p < length k" using FullNode.prems(2) by (rule term_key_pos)
  have ks: "drop p k = k ! p # drop (Suc p) k" using p by (rule drop_split)
  show ?case
  proof (cases "k ! p = 16")
    case True
    from ins_Full_value[OF FullNode.prems True] show ?thesis .
  next
    case False
    with FullNode.prems(2) ks have x: "k ! p < 16" and tk: "term_key (drop (Suc p) k)"
      by (auto simp: term_key_Cons split: if_splits)
    from wf_Full_child[OF FullNode.prems(1) unat_lt16[OF x]]
    have w: "well_formed (child_at cs (unat (k ! p)))" and m: "child_at cs (unat (k ! p)) \<in> set cs"
      by simp_all
    from ins_Full_child[OF FullNode.prems False FullNode.IH[OF m w tk]] show ?thesis .
  qed
qed simp_all

section \<open>Removal from a well-formed tree\<close>

lemma rem_postI:
  assumes "r = Some (Inr (d, n'))" "well_formed n'"
    and "\<And>ks'. term_key ks' \<Longrightarrow> lookup n' ks' = (if ks' = ks then None else lookup n ks')"
    and "d \<longleftrightarrow> lookup n ks \<noteq> None" and "\<not> d \<Longrightarrow> n' = n"
  shows "rem_post n ks r"
  unfolding rem_post_def using assms by blast

lemma rem_NIL:
  assumes "term_key (drop p k)"
  shows "rem_post NIL (drop p k) (u_remove dec t fuel NIL k p)"
proof (rule rem_postI)
  show "u_remove dec t fuel NIL k p = Some (Inr (False, NIL))"
    using term_key_pos[OF assms] by (simp add: u_remove_NIL)
qed simp_all

lemma rem_Short_mismatch:
  assumes wfS: "well_formed (ShortNode nk v0 fl)" and tk: "term_key (drop p k)"
    and ne: "common_len (drop p k) nk \<noteq> length nk"
  shows "rem_post (ShortNode nk v0 fl) (drop p k) (u_remove dec t fuel (ShortNode nk v0 fl) k p)"
proof (rule rem_postI)
  have p: "p < length k" using tk by (rule term_key_pos)
  have lt: "prefixLen k nk p < length nk"
    using ne common_len_le(2)[of "drop p k" nk] by (simp add: prefixLen_drop)
  show "u_remove dec t fuel (ShortNode nk v0 fl) k p = Some (Inr (False, ShortNode nk v0 fl))"
    using p lt by (simp add: u_remove_Short)
  have np: "take (length nk) (drop p k) \<noteq> nk" using ne by (simp add: common_len_full)
  then show "False = (lookup (ShortNode nk v0 fl) (drop p k) \<noteq> None)" by simp
  show "lookup (ShortNode nk v0 fl) ks' = (if ks' = drop p k then None else lookup (ShortNode nk v0 fl) ks')"
    for ks' using np by simp
  show "well_formed (ShortNode nk v0 fl)" by (rule wfS)
qed simp

lemma rem_Short_exact:
  assumes ko: "key_ok nk v0" and tk: "term_key (drop p k)"
    and eq: "nk = drop p k"
  shows "rem_post (ShortNode nk v0 fl) (drop p k) (u_remove dec t fuel (ShortNode nk v0 fl) k p)"
proof (rule rem_postI)
  have p: "p < length k" using tk by (rule term_key_pos)
  have "take (length nk) (drop p k) = nk" using eq by simp
  then have ml: "prefixLen k nk p = length nk"
    by (simp only: prefixLen_drop common_len_full)
  have len: "length nk = length k - p" using eq by simp
  show "u_remove dec t fuel (ShortNode nk v0 fl) k p = Some (Inr (True, NIL))"
    using p ml len by (simp add: u_remove_Short)
  have tn: "term_key nk" using tk eq by simp
  with ko have "isValue v0" using plain_not_term[of nk] by (auto simp: key_ok_def split: if_splits)
  then obtain nd where v0: "v0 = ValueNode nd" by (cases v0) auto
  show "True = (lookup (ShortNode nk v0 fl) (drop p k) \<noteq> None)"
    using eq v0 by simp
  show "lookup NIL ks' = (if ks' = drop p k then None else lookup (ShortNode nk v0 fl) ks')"
    if "term_key ks'" for ks'
    using lk_leaf[OF tn that, of nd fl] v0 eq by (simp del: lookup.simps(3))
qed simp_all

lemma rem_Short_ext:
  assumes tk: "term_key (drop p k)" and pl: "plain nk" and wv: "well_formed v0"
    and pre: "take (length nk) (drop p k) = nk"
    and IH: "rem_post v0 (drop (p + length nk) k) (u_remove dec t fuel v0 k (p + length nk))"
  shows "rem_post (ShortNode nk v0 fl) (drop p k) (u_remove dec t fuel (ShortNode nk v0 fl) k p)"
proof -
  have p: "p < length k" using tk by (rule term_key_pos)
  have ml: "prefixLen k nk p = length nk"
    using pre by (simp add: prefixLen_drop common_len_full)
  have ks: "drop p k = nk @ drop (p + length nk) k"
    using take_eq_append[OF pre] by (simp add: add.commute)
  have "nk \<noteq> drop p k" using tk pl by (auto simp: plain_not_term)
  then have "drop (p + length nk) k \<noteq> []" using ks by auto
  then have nl: "length nk \<noteq> length k - p" by auto
  from IH obtain d nn where
    r: "u_remove dec t fuel v0 k (p + length nk) = Some (Inr (d, nn))"
    and wn: "well_formed nn"
    and lkn: "\<And>r'. term_key r' \<Longrightarrow>
                lookup nn r' = (if r' = drop (p + length nk) k then None else lookup v0 r')"
    and dd: "d \<longleftrightarrow> lookup v0 (drop (p + length nk) k) \<noteq> None"
    and same: "\<not> d \<Longrightarrow> nn = v0"
    by (auto simp: rem_post_def)
  define res where "res = (if \<not> d then ShortNode nk v0 fl
     else case nn of ShortNode nnk nnv nnfl \<Rightarrow> ShortNode (nk @ nnk) nnv (flags t)
          | _ \<Rightarrow> ShortNode nk nn (flags t))"
  have ev: "u_remove dec t fuel (ShortNode nk v0 fl) k p = Some (Inr (d, res))"
    using p ml nl wn r
    by (cases nn) (simp_all add: u_remove_Short res_def shortNode_def concat_buf_def)
  have lkres: "lookup res ks' = (if take (length nk) ks' = nk then lookup nn (drop (length nk) ks') else None)"
    for ks'
  proof (cases d)
    case False
    then show ?thesis using same by (simp add: res_def)
  next
    case True
    show ?thesis
    proof (cases nn)
      case (ShortNode nnk nnv nnfl)
      with True have "res = ShortNode (nk @ nnk) nnv (flags t)" by (simp add: res_def)
      then show ?thesis
        using ShortNode by (simp only: lk_Short_append) simp
    qed (use True in \<open>simp_all add: res_def\<close>)
  qed
  have wres: "well_formed res"
  proof (cases d)
    case False
    then show ?thesis using pl wv wf_not_Value[OF wv] by (simp add: res_def)
  next
    case True
    show ?thesis
    proof (cases nn)
      case (ShortNode nnk nnv nnfl)
      with wn have "key_ok nnk nnv" by (simp only: wf_Short)
      then have "key_ok (nk @ nnk) nnv"
        using pl by (auto simp: key_ok_def term_key_append_plain)
      then show ?thesis using True ShortNode by (simp add: res_def wf_Short del: well_formed.simps)
    qed (use True wn pl in \<open>simp_all add: res_def\<close>)
  qed
  show ?thesis
  proof (rule rem_postI[OF ev wres])
    show "d = (lookup (ShortNode nk v0 fl) (drop p k) \<noteq> None)"
      using dd pre by (simp add: add.commute)
    show "res = ShortNode nk v0 fl" if "\<not> d" using that by (simp add: res_def)
    show "lookup res ks' = (if ks' = drop p k then None else lookup (ShortNode nk v0 fl) ks')"
      if t': "term_key ks'" for ks'
    proof (cases "take (length nk) ks' = nk")
      case True
      then have s: "ks' = nk @ drop (length nk) ks'" by (rule take_eq_append)
      with t' pl have "term_key (drop (length nk) ks')"
        using term_key_append_plain[of nk "drop (length nk) ks'"] by simp
      from lkn[OF this] have
        "lookup nn (drop (length nk) ks')
           = (if drop (length nk) ks' = drop (p + length nk) k then None
              else lookup v0 (drop (length nk) ks'))" .
      moreover have "ks' = drop p k \<longleftrightarrow> drop (length nk) ks' = drop (p + length nk) k"
        using s ks by (metis same_append_eq)
      ultimately show ?thesis using True by (simp add: lkres)
    next
      case False
      with pre have "ks' \<noteq> drop p k" by auto
      with False show ?thesis by (simp add: lkres)
    qed
  qed
qed

lemma wf_Full_defined:
  assumes "well_formed (FullNode cs fl)"
  shows "\<forall>j<17. child_at cs j \<noteq> Undefined"
proof (intro allI impI)
  fix j :: nat assume j: "j < 17"
  with assms have "slot_ok j (cs ! j)" "length cs = 17" by (simp_all add: wf_Full)
  then show "child_at cs j \<noteq> Undefined"
    using j by (auto simp: child_at_def slot_ok_def split: if_splits)
qed

lemma isNull_iff: "isNull c \<longleftrightarrow> c = NIL"
  by (cases c) auto

lemma only_slot:
  assumes "occupied cs = [i]" "j \<noteq> i" "length cs = 17"
  shows "lookup (child_at cs j) r = None"
proof (cases "j < 17")
  case True
  have "j \<notin> set (occupied cs)" using assms(1,2) by simp
  with True have "child_at cs j = NIL" by (simp add: occupied_set isNull_iff)
  then show ?thesis by simp
next
  case False
  then show ?thesis using assms(3) by (simp add: child_at_def)
qed

lemma only_slot_occupied:
  assumes "occupied cs = [i]"
  shows "i < 17 \<and> child_at cs i \<noteq> NIL"
proof -
  have "i \<in> set (occupied cs)" using assms by simp
  then show ?thesis by (simp add: occupied_set isNull_iff)
qed

lemma collapse_not_single:
  assumes "\<forall>j<17. child_at cs j \<noteq> Undefined" "\<And>i. occupied cs \<noteq> [i]"
  shows "collapse dec t cs fl k = Some (Inr (True, FullNode cs fl))"
  using assms by (auto simp: collapse_def scan_all split: list.splits)

lemma unat_nibble: "i < 17 \<Longrightarrow> unat (word_of_nat i :: byte) = i"
  by (simp add: unat_of_nat)

lemma lk_Full_single:
  assumes "occupied cs = [i]" "length cs = 17"
  shows "lookup (FullNode cs fl) (z # r) = (if unat z = i then lookup (child_at cs i) r else None)"
  using only_slot[OF assms(1) _ assms(2)] by simp

lemma collapse_ok:
  assumes wfF: "well_formed (FullNode cs fl)"
  shows "\<exists>n'. collapse dec t cs fl k = Some (Inr (True, n')) \<and> well_formed n'
           \<and> (\<forall>ks'. term_key ks' \<longrightarrow> lookup n' ks' = lookup (FullNode cs fl) ks')"
proof (cases "\<exists>i. occupied cs = [i]")
  case False
  then have "collapse dec t cs fl k = Some (Inr (True, FullNode cs fl))"
    using collapse_not_single[OF wf_Full_defined[OF wfF]] by blast
  with wfF show ?thesis by simp
next
  case True
  then obtain i where occ: "occupied cs = [i]" ..
  have len: "length cs = 17" using wfF by (simp add: wf_Full)
  from only_slot_occupied[OF occ] have i17: "i < 17" and nn: "child_at cs i \<noteq> NIL" by simp_all
  have sok: "slot_ok i (child_at cs i)" using wfF i17 by (simp add: wf_Full child_at_def)
  note single = collapse_single[OF wf_Full_defined[OF wfF] occ, of dec t fl k]
  show ?thesis
  proof (cases "i = 16")
    case True
    with sok nn obtain d where c: "child_at cs 16 = ValueNode d"
      by (cases "child_at cs 16") (auto simp: slot_ok_def)
    have ev: "collapse dec t cs fl k = Some (Inr (True, ShortNode [16] (ValueNode d) (flags t)))"
      using single True c by simp
    have "lookup (ShortNode [16] (ValueNode d) (flags t)) ks' = lookup (FullNode cs fl) ks'"
      if "term_key ks'" for ks'
    proof -
      from that obtain z r where zr: "ks' = z # r" by (cases ks') auto
      have "unat z = 16 \<longleftrightarrow> z = 16" by (simp add: word_unat_eq_iff)
      then show ?thesis
        unfolding zr lk_Full_single[OF occ len] using True c by simp
    qed
    with ev show ?thesis by (simp add: term_key_Cons del: lookup.simps)
  next
    case False
    with i17 have i16: "i < 16" by simp
    define wi :: byte where "wi = word_of_nat i"
    have uw: "unat wi = i" using i17 by (simp add: wi_def unat_nibble)
    have wlt: "wi < 16" using uw i16 by (simp add: word_less_nat_alt)
    have wc: "well_formed (child_at cs i)" using sok False by (simp add: slot_ok_def)
    have rs: "resolve dec t (child_at cs i) k (int i) = Inr (child_at cs i)"
      using wc by (cases "child_at cs i") (simp_all add: resolve_def)
    have zi: "unat z = i \<longleftrightarrow> z = wi" for z using uw by (auto simp: word_unat_eq_iff)
    show ?thesis
    proof (cases "child_at cs i")
      case (ShortNode ck cv cfl)
      have ev: "collapse dec t cs fl k = Some (Inr (True, ShortNode (wi # ck) cv (flags t)))"
        using single False rs ShortNode by (simp add: wi_def)
      from wc ShortNode have "key_ok ck cv" by (simp only: wf_Short)
      then have "key_ok (wi # ck) cv"
        using wlt by (auto simp: key_ok_def term_key_Cons)
      then have w: "well_formed (ShortNode (wi # ck) cv (flags t))" by (simp only: wf_Short)
      have "lookup (ShortNode (wi # ck) cv (flags t)) ks' = lookup (FullNode cs fl) ks'"
        if "term_key ks'" for ks'
      proof -
        from that obtain z r where zr: "ks' = z # r" by (cases ks') auto
        show ?thesis
          unfolding zr lk_Full_single[OF occ len] lk_Short_Cons zi
          using ShortNode by simp
      qed
      with ev w show ?thesis by blast
    next
      case NIL
      with nn show ?thesis by simp
    next
      case (FullNode ccs cfl)
      have ev: "collapse dec t cs fl k
                  = Some (Inr (True, ShortNode [wi] (child_at cs i) (flags t)))"
        using single False rs FullNode by (simp add: wi_def)
      have w: "well_formed (ShortNode [wi] (child_at cs i) (flags t))"
        using wc wlt FullNode by simp
      have "lookup (ShortNode [wi] (child_at cs i) (flags t)) ks' = lookup (FullNode cs fl) ks'"
        if "term_key ks'" for ks'
      proof -
        from that obtain z r where zr: "ks' = z # r" by (cases ks') auto
        show ?thesis
          unfolding zr lk_Full_single[OF occ len] lk_Short_Cons zi
          by simp
      qed
      with ev w show ?thesis by blast
    qed (use wc in simp_all)
  qed
qed

lemma rem_Full:
  assumes wfF: "well_formed (FullNode cs fl)" and tk: "term_key (drop p k)"
    and inner: "u_remove dec t fuel (child_at cs (unat (k ! p))) k (Suc p) = Some (Inr (d, nn))"
    and ok: "slot_ok (unat (k ! p)) nn"
    and lkn: "\<And>r. term_key (k ! p # r) \<Longrightarrow>
                lookup nn r = (if r = drop (Suc p) k then None
                           else lookup (child_at cs (unat (k ! p))) r)"
    and dd: "d \<longleftrightarrow> lookup (child_at cs (unat (k ! p))) (drop (Suc p) k) \<noteq> None"
  shows "rem_post (FullNode cs fl) (drop p k) (u_remove dec t fuel (FullNode cs fl) k p)"
proof -
  define i where "i = unat (k ! p)"
  define fl' where "fl' = fl\<lparr>fl_hash := None, fl_dirty := True\<rparr>"
  define cs' where "cs' = set_child cs i nn"
  have p: "p < length k" using tk by (rule term_key_pos)
  have ks: "drop p k = k ! p # drop (Suc p) k" using p by (rule drop_split)
  have i17: "i < 17" using tk ks term_key_nibble_le[of "k ! p" "drop (Suc p) k"]
    by (simp add: i_def)
  have len: "length cs = 17" using wfF by (simp add: wf_Full)
  have old: "lookup (FullNode cs fl) (drop p k) = lookup (child_at cs i) (drop (Suc p) k)"
    by (subst ks) (simp add: i_def)
  show ?thesis
  proof (cases d)
    case False
    have ev: "u_remove dec t fuel (FullNode cs fl) k p = Some (Inr (False, FullNode cs fl))"
      using p inner False by (simp add: u_remove_Full child_by_key_def)
    show ?thesis
    proof (rule rem_postI[OF ev wfF])
      show "False = (lookup (FullNode cs fl) (drop p k) \<noteq> None)"
        using False dd old by (simp add: i_def)
      then show "lookup (FullNode cs fl) ks'
            = (if ks' = drop p k then None else lookup (FullNode cs fl) ks')" for ks'
        by (simp del: lookup.simps)
    qed simp
  next
    case True
    have ev: "u_remove dec t fuel (FullNode cs fl) k p = collapse dec t cs' fl' k"
      using p inner True
      by (simp add: u_remove_Full child_by_key_def set_child_by_key_def cs'_def i_def fl'_def)
    have well_formed': "well_formed (FullNode cs' fl')"
      unfolding cs'_def using wf_Full_update[OF wfF i17] ok by (simp add: i_def)
    from collapse_ok[OF well_formed', of dec t k] obtain n' where
      c: "collapse dec t cs' fl' k = Some (Inr (True, n'))" and wn: "well_formed n'"
      and lkc: "\<And>ks'. term_key ks' \<Longrightarrow> lookup n' ks' = lookup (FullNode cs' fl') ks'"
      by blast
    have upd: "lookup (FullNode cs' fl') ks'
          = (if ks' = drop p k then None else lookup (FullNode cs fl) ks')"
      if t': "term_key ks'" for ks'
    proof -
      from t' obtain z r where zr: "ks' = z # r" by (cases ks') auto
      show ?thesis
      proof (cases "z = k ! p")
        case True
        with t' zr have "term_key (k ! p # r)" by simp
        from lkn[OF this] zr True ks len i17 show ?thesis
          by (simp add: child_at_set_child i_def cs'_def)
      next
        case False
        then have "unat z \<noteq> i" by (simp add: i_def word_unat_eq_iff)
        with zr False ks len i17 show ?thesis
          by (simp add: child_at_set_child cs'_def)
      qed
    qed
    show ?thesis
    proof (rule rem_postI[OF _ wn])
      show "u_remove dec t fuel (FullNode cs fl) k p = Some (Inr (True, n'))"
        using ev c by simp
      show "True = (lookup (FullNode cs fl) (drop p k) \<noteq> None)"
        using True dd old by (simp add: i_def)
      show "lookup n' ks' = (if ks' = drop p k then None else lookup (FullNode cs fl) ks')"
        if "term_key ks'" for ks'
        using lkc[OF that] upd[OF that] by simp
    qed simp
  qed
qed

lemma rem_Full_value:
  assumes wfF: "well_formed (FullNode cs fl)" and tk: "term_key (drop p k)" and x: "k ! p = 16"
  shows "rem_post (FullNode cs fl) (drop p k) (u_remove dec t fuel (FullNode cs fl) k p)"
proof -
  have p: "p < length k" using tk by (rule term_key_pos)
  have ks: "drop p k = k ! p # drop (Suc p) k" using p by (rule drop_split)
  have rest: "drop (Suc p) k = []" using tk ks x by (simp add: term_key_Cons split: if_splits)
  have e: "Suc p \<le> length k" using p by simp
  have u16: "unat (k ! p) = 16" using x by simp
  from wf_Full_slot16[OF wfF] show ?thesis
  proof
    assume c: "child_at cs 16 = NIL"
    show ?thesis
    proof (rule rem_Full[OF wfF tk, where d = False and nn = NIL])
      show "u_remove dec t fuel (child_at cs (unat (k ! p))) k (Suc p) = Some (Inr (False, NIL))"
        using e c u16 by (simp add: u_remove_NIL)
    qed (auto simp: u16 c rest slot_ok_def x term_key_Cons split: if_splits)
  next
    assume "\<exists>nd. child_at cs 16 = ValueNode nd"
    then obtain nd where c: "child_at cs 16 = ValueNode nd" ..
    show ?thesis
    proof (rule rem_Full[OF wfF tk, where d = True and nn = NIL])
      show "u_remove dec t fuel (child_at cs (unat (k ! p))) k (Suc p) = Some (Inr (True, NIL))"
        using e c u16 by (simp add: u_remove_Value)
    qed (auto simp: u16 c rest slot_ok_def x term_key_Cons split: if_splits)
  qed
qed

lemma rem_Full_child:
  assumes wfF: "well_formed (FullNode cs fl)" and tk: "term_key (drop p k)" and x: "k ! p \<noteq> 16"
    and IH: "rem_post (child_at cs (unat (k ! p))) (drop (Suc p) k)
               (u_remove dec t fuel (child_at cs (unat (k ! p))) k (Suc p))"
  shows "rem_post (FullNode cs fl) (drop p k) (u_remove dec t fuel (FullNode cs fl) k p)"
proof -
  have u16: "unat (k ! p) \<noteq> 16" using x by (simp add: word_unat_eq_iff)
  from IH obtain d nn where
    r: "u_remove dec t fuel (child_at cs (unat (k ! p))) k (Suc p) = Some (Inr (d, nn))"
    and wn: "well_formed nn"
    and lkn: "\<And>r'. term_key r' \<Longrightarrow>
                lookup nn r' = (if r' = drop (Suc p) k then None
                            else lookup (child_at cs (unat (k ! p))) r')"
    and dd: "d \<longleftrightarrow> lookup (child_at cs (unat (k ! p))) (drop (Suc p) k) \<noteq> None"
    by (auto simp: rem_post_def)
  show ?thesis
  proof (rule rem_Full[OF wfF tk r _ _ dd])
    show "slot_ok (unat (k ! p)) nn" using wn u16 by (simp add: slot_ok_def)
    show "lookup nn r = (if r = drop (Suc p) k then None else lookup (child_at cs (unat (k ! p))) r)"
      if "term_key (k ! p # r)" for r
      using that x lkn[of r] by (simp add: term_key_Cons split: if_splits)
  qed
qed

lemma rem_ok:
  "well_formed n \<Longrightarrow> term_key (drop p k) \<Longrightarrow> rem_post n (drop p k) (u_remove dec t fuel n k p)"
proof (induction n arbitrary: p)
  case NIL
  then show ?case by (simp add: rem_NIL)
next
  case (ShortNode nk v0 fl)
  have ko: "key_ok nk v0" using ShortNode.prems(1) by (simp only: wf_Short)
  show ?case
  proof (cases "common_len (drop p k) nk = length nk")
    case False
    from rem_Short_mismatch[OF ShortNode.prems False] show ?thesis .
  next
    case True
    then have pre: "take (length nk) (drop p k) = nk" by (simp add: common_len_full)
    show ?thesis
    proof (cases "isValue v0")
      case True
      with ko have "term_key nk" by (simp add: key_ok_def)
      from term_key_prefix_eq[OF this ShortNode.prems(2) pre]
      have "nk = drop p k" .
      from rem_Short_exact[OF ko ShortNode.prems(2) this] show ?thesis .
    next
      case False
      with ko have pl: "plain nk" and wv: "well_formed v0" by (simp_all add: key_ok_def)
      have "drop p k = nk @ drop (p + length nk) k"
        using take_eq_append[OF pre] by (simp add: add.commute)
      with ShortNode.prems(2) pl have "term_key (drop (p + length nk) k)"
        using term_key_append_plain[of nk "drop (p + length nk) k"] by simp
      from rem_Short_ext[OF ShortNode.prems(2) pl wv pre ShortNode.IH[OF wv this]]
      show ?thesis .
    qed
  qed
next
  case (FullNode cs fl)
  have p: "p < length k" using FullNode.prems(2) by (rule term_key_pos)
  have ks: "drop p k = k ! p # drop (Suc p) k" using p by (rule drop_split)
  show ?case
  proof (cases "k ! p = 16")
    case True
    from rem_Full_value[OF FullNode.prems True] show ?thesis .
  next
    case False
    with FullNode.prems(2) ks have x: "k ! p < 16" and tk: "term_key (drop (Suc p) k)"
      by (auto simp: term_key_Cons split: if_splits)
    from wf_Full_child[OF FullNode.prems(1) unat_lt16[OF x]]
    have w: "well_formed (child_at cs (unat (k ! p)))" and m: "child_at cs (unat (k ! p)) \<in> set cs"
      by simp_all
    from rem_Full_child[OF FullNode.prems False FullNode.IH[OF m w tk]] show ?thesis .
  qed
qed simp_all

section \<open>Keys as nibbles\<close>

lemma nibble_hi_lt: "drop_bit 4 (b :: byte) < 16"
proof -
  have "unat (drop_bit 4 b) = drop_bit 4 (unat b)" by (simp add: unat_drop_bit_eq)
  moreover have "unat b < 256" using unsigned_less[of b, where 'a = nat] by simp
  ultimately show ?thesis by (simp add: word_less_nat_alt drop_bit_eq_div)
qed

lemma nibble_lo_lt: "(b :: byte) AND 15 < 16"
proof -
  have "b AND 15 \<le> 15" by (rule word_and_le1)
  then show ?thesis by (simp add: word_le_nat_alt word_less_nat_alt)
qed

lemma plain_nibs: "plain (nibs bs)"
  by (induction bs) (simp_all add: nibble_hi_lt nibble_lo_lt)

lemma term_key_toNibbles: "term_key (toNibbles ky)"
  unfolding toNibbles_def
  using term_key_append_plain[OF plain_nibs, of ky "[16]"] by (simp add: term_key_Cons)

lemma byte_split: "(a :: byte) = push_bit 4 (drop_bit 4 a) + take_bit 4 a"
  by (simp add: bits_ident)

lemma and15: "(a :: byte) AND 15 = take_bit 4 a"
proof -
  have "(15 :: byte) = mask 4" by (simp add: mask_eq_exp_minus_1)
  then show ?thesis by (simp add: take_bit_eq_mask)
qed

lemma byte_from_nibbles:
  assumes "drop_bit 4 (a :: byte) = drop_bit 4 b" "a AND 15 = b AND 15"
  shows "a = b"
proof -
  have "a = push_bit 4 (drop_bit 4 a) + take_bit 4 a" by (rule byte_split)
  also have "\<dots> = push_bit 4 (drop_bit 4 b) + take_bit 4 b"
    using assms by (simp only: and15)
  also have "\<dots> = b" by (rule byte_split[symmetric])
  finally show ?thesis .
qed

lemma nibs_inj: "nibs a = nibs b \<Longrightarrow> a = b"
proof (induction a arbitrary: b)
  case Nil
  then show ?case by (cases b) auto
next
  case (Cons x a)
  then show ?case by (cases b) (auto dest: byte_from_nibbles)
qed

lemma toNibbles_inj: "toNibbles a = toNibbles b \<longleftrightarrow> a = b"
  by (auto simp: toNibbles_def dest: nibs_inj)

section \<open>Map semantics\<close>

lemma insert_step:
  assumes "well_formed (root t)"
  shows "\<exists>rt. insert_trie dec fuel t ky v = Some (Inr (t\<lparr>root := rt\<rparr>)) \<and> well_formed rt
           \<and> (\<forall>ky'. lookup rt (toNibbles ky')
                  = (if ky' = ky then Some v else lookup (root t) (toNibbles ky')))
           \<and> (u_insert dec t fuel (root t) (toNibbles ky) 0 (valueNode t v)
                 = Some (Inr (lookup (root t) (toNibbles ky) \<noteq> Some v, rt)))
           \<and> (lookup (root t) (toNibbles ky) = Some v \<longrightarrow> rt = root t)"
proof -
  have tk: "term_key (drop 0 (toNibbles ky))" by (simp add: term_key_toNibbles)
  from ins_ok[OF assms tk, of v dec t fuel] obtain d n' where
    r: "u_insert dec t fuel (root t) (toNibbles ky) 0 (ValueNode v) = Some (Inr (d, n'))"
    and w: "well_formed n'"
    and l: "\<And>ks'. term_key ks' \<Longrightarrow>
              lookup n' ks' = (if ks' = toNibbles ky then Some v else lookup (root t) ks')"
    and dd: "d \<longleftrightarrow> lookup (root t) (toNibbles ky) \<noteq> Some v"
    and same: "\<not> d \<Longrightarrow> n' = root t"
    by (auto simp: ins_post_def)
  have "insert_trie dec fuel t ky v = Some (Inr (t\<lparr>root := n'\<rparr>))"
    using r by (simp add: insert_trie_def valueNode_def)
  moreover have "lookup n' (toNibbles ky')
      = (if ky' = ky then Some v else lookup (root t) (toNibbles ky'))" for ky'
    using l[OF term_key_toNibbles, of ky'] by (simp add: toNibbles_inj)
  ultimately show ?thesis using w r dd same by (auto simp: valueNode_def)
qed

lemma remove_step:
  assumes "well_formed (root t)"
  shows "\<exists>rt. remove dec fuel t ky = Some (Inr (t\<lparr>root := rt\<rparr>)) \<and> well_formed rt
           \<and> (\<forall>ky'. lookup rt (toNibbles ky')
                  = (if ky' = ky then None else lookup (root t) (toNibbles ky')))"
proof -
  have tk: "term_key (drop 0 (toNibbles ky))" by (simp add: term_key_toNibbles)
  from rem_ok[OF assms tk, of dec t fuel] obtain d n' where
    r: "u_remove dec t fuel (root t) (toNibbles ky) 0 = Some (Inr (d, n'))"
    and w: "well_formed n'"
    and l: "\<And>ks'. term_key ks' \<Longrightarrow>
              lookup n' ks' = (if ks' = toNibbles ky then None else lookup (root t) ks')"
    by (auto simp: rem_post_def)
  have "remove dec fuel t ky = Some (Inr (t\<lparr>root := n'\<rparr>))"
    using r by (simp add: remove_def)
  moreover have "lookup n' (toNibbles ky')
      = (if ky' = ky then None else lookup (root t) (toNibbles ky'))" for ky'
    using l[OF term_key_toNibbles, of ky'] by (simp add: toNibbles_inj)
  ultimately show ?thesis using w by blast
qed

lemma get_step:
  assumes "well_formed (root t)"
  shows "get dec fuel t ky = Some (Inr (lookup (root t) (toNibbles ky), t))"
proof -
  have tk: "term_key (drop 0 (toNibbles ky))" by (simp add: term_key_toNibbles)
  from get_lk[OF assms tk, of dec t fuel] show ?thesis by (simp add: get_def)
qed

lemma apply_op_ok:
  assumes "well_formed (root t)"
  shows "\<exists>t'. apply_op dec fuel t x = Some (Inr t') \<and> well_formed (root t')
           \<and> contents t' = model_op (contents t) x"
proof (cases x)
  case (Insert ky v)
  from insert_step[OF assms, of dec fuel ky v] obtain rt where
    "insert_trie dec fuel t ky v = Some (Inr (t\<lparr>root := rt\<rparr>))" "well_formed rt"
    "\<And>ky'. lookup rt (toNibbles ky') = (if ky' = ky then Some v else lookup (root t) (toNibbles ky'))"
    by blast
  then show ?thesis using Insert
    by (intro exI[of _ "t\<lparr>root := rt\<rparr>"]) (auto simp: contents_def fun_eq_iff)
next
  case (Remove ky)
  from remove_step[OF assms, of dec fuel ky] obtain rt where
    "remove dec fuel t ky = Some (Inr (t\<lparr>root := rt\<rparr>))" "well_formed rt"
    "\<And>ky'. lookup rt (toNibbles ky') = (if ky' = ky then None else lookup (root t) (toNibbles ky'))"
    by blast
  then show ?thesis using Remove
    by (intro exI[of _ "t\<lparr>root := rt\<rparr>"]) (auto simp: contents_def fun_eq_iff)
qed

lemma run_ops_ok:
  "well_formed (root t) \<Longrightarrow>
   \<exists>t'. run_ops dec fuel t ops = Some (Inr t') \<and> well_formed (root t')
      \<and> contents t' = foldl model_op (contents t) ops"
proof (induction ops arbitrary: t)
  case Nil
  then show ?case by simp
next
  case (Cons x xs)
  from apply_op_ok[OF Cons.prems, of dec fuel x] obtain t1 where
    a: "apply_op dec fuel t x = Some (Inr t1)" and w1: "well_formed (root t1)"
    and c1: "contents t1 = model_op (contents t) x" by blast
  from Cons.IH[OF w1] obtain t' where
    "run_ops dec fuel t1 xs = Some (Inr t')" "well_formed (root t')"
    "contents t' = foldl model_op (contents t1) xs" by blast
  with a c1 show ?case by simp
qed

lemma contents_empty: "root t = NIL \<Longrightarrow> contents t = Map.empty"
  by (simp add: contents_def fun_eq_iff)

text \<open>
  Claim C1: starting from an empty trie (no store is needed: the walks never meet a
  Hash node), every sequence of \<^verbatim>\<open>insert(k, v)\<close> and \<^verbatim>\<open>remove(k)\<close> runs without an
  error, and afterwards \<^verbatim>\<open>get(k)\<close> returns, for every key, what the same sequence
  of updates leaves in a map: the value of the last \<^verbatim>\<open>insert(k, v)\<close> not followed
  by a \<^verbatim>\<open>remove(k)\<close>, and \<^verbatim>\<open>null\<close> if the key was never inserted or was last
  removed. \<^verbatim>\<open>get\<close> leaves the trie as it is.
\<close>

theorem map_semantics:
  assumes "root t0 = NIL"
  shows "\<exists>t. run_ops dec fuel t0 ops = Some (Inr t)
           \<and> (\<forall>ky. get dec fuel t ky = Some (Inr (foldl model_op Map.empty ops ky, t)))"
proof -
  have w0: "well_formed (root t0)" using assms by simp
  from run_ops_ok[OF w0, of dec fuel ops] obtain t where
    r: "run_ops dec fuel t0 ops = Some (Inr t)" and w: "well_formed (root t)"
    and c: "contents t = foldl model_op (contents t0) ops" by blast
  have "get dec fuel t ky = Some (Inr (foldl model_op Map.empty ops ky, t))" for ky
    using get_step[OF w, of dec fuel ky] c contents_empty[OF assms]
    by (simp add: contents_def fun_eq_iff)
  with r show ?thesis by blast
qed

theorem map_semantics_witness:
  "root demo_trie = NIL
   \<and> (\<exists>t. run_ops demo_dec 0 demo_trie demo_ops = Some (Inr t)
          \<and> get demo_dec 0 t [0x13] = Some (Inr (Some [3], t))
          \<and> get demo_dec 0 t [0x12] = Some (Inr (None, t))
          \<and> get demo_dec 0 t [0x12, 0x34] = Some (Inr (Some [4], t)))"
proof -
  have r: "root demo_trie = NIL" by (simp add: demo_trie_def)
  have m: "foldl model_op Map.empty demo_ops [0x13] = Some [3]"
    "foldl model_op Map.empty demo_ops [0x12] = None"
    "foldl model_op Map.empty demo_ops [0x12, 0x34] = Some [4]"
    by (simp_all add: demo_ops_def)
  from map_semantics[OF r, of demo_dec 0 demo_ops] obtain t where
    "run_ops demo_dec 0 demo_trie demo_ops = Some (Inr t)"
    "\<And>ky. get demo_dec 0 t ky = Some (Inr (foldl model_op Map.empty demo_ops ky, t))"
    by blast
  with r m show ?thesis by (intro conjI exI[of _ t]) simp_all
qed

section \<open>Inserting a pair that is already there\<close>

subsection \<open>Well-formed trees with Hash nodes\<close>

lemma wfh_Full:
  "well_formed_h (FullNode cs fl) \<longleftrightarrow>
     length cs = 17 \<and> (\<forall>i<16. well_formed_h (cs ! i)) \<and> (isNull (cs ! 16) \<or> isValue (cs ! 16))"
proof
  assume a: "well_formed_h (FullNode cs fl)"
  then have l: "length cs = 17"
    and q: "\<And>i. i < 17 \<Longrightarrow> (if i = 16 then isNull (child_at cs i) \<or> isValue (child_at cs i)
                            else well_formed_h (child_at cs i))"
    by simp_all
  have "well_formed_h (cs ! i)" if "i < 16" for i
    using q[of i] l that by (simp add: child_at_def)
  moreover have "isNull (cs ! 16) \<or> isValue (cs ! 16)"
    using q[of 16] l by (simp add: child_at_def)
  ultimately show "length cs = 17 \<and> (\<forall>i<16. well_formed_h (cs ! i))
      \<and> (isNull (cs ! 16) \<or> isValue (cs ! 16))"
    using l by simp
next
  assume "length cs = 17 \<and> (\<forall>i<16. well_formed_h (cs ! i))
      \<and> (isNull (cs ! 16) \<or> isValue (cs ! 16))"
  then show "well_formed_h (FullNode cs fl)"
    by (auto simp: child_at_def)
qed

declare well_formed_h.simps(3) [simp del]

lemma wfh_Full_child:
  "well_formed_h (FullNode cs fl) \<Longrightarrow> i < 16 \<Longrightarrow>
   well_formed_h (child_at cs i) \<and> child_at cs i \<in> set cs"
  by (simp add: wfh_Full child_at_def)

lemma wfh_Full_slot16:
  assumes "well_formed_h (FullNode cs fl)"
  shows "child_at cs 16 = NIL \<or> (\<exists>d. child_at cs 16 = ValueNode d)"
proof -
  from assms have "isNull (child_at cs 16) \<or> isValue (child_at cs 16)"
    by (simp add: wfh_Full child_at_def)
  then show ?thesis by (cases "child_at cs 16") auto
qed

lemma wf_wfh: "well_formed n \<Longrightarrow> well_formed_h n"
proof (induction n)
  case (FullNode cs fl)
  then show ?case
    by (auto simp: wfh_Full wf_Full slot_ok_def)
qed auto

subsection \<open>Where the lookup finds the value, the insertion changes nothing\<close>

lemma u_get_found_Short:
  assumes "p \<le> length k"
    and "u_get dec t fuel (ShortNode nk c fl) k p = Some (Inr (Some v, n1, res))"
  shows "startsWith k nk p \<and> (\<exists>nn r. u_get dec t fuel c k (p + length nk) = Some (Inr (Some v, nn, r)))"
  using assms by (auto simp: u_get_Short split: if_splits option.splits sum.splits)

lemma u_get_found_Full:
  assumes "p \<le> length k"
    and "u_get dec t fuel (FullNode cs fl) k p = Some (Inr (Some v, n1, res))"
  shows "\<exists>nn r. u_get dec t fuel (child_by_key cs k p) k (p + 1) = Some (Inr (Some v, nn, r))"
  using assms by (auto simp: u_get_Full split: if_splits option.splits sum.splits)

lemma u_get_found_Hash:
  assumes "p \<le> length k"
    and "u_get dec t fuel (HashNode d) k p = Some (Inr (Some v, n1, res))"
  shows "\<exists>rn f nn r. resolveHash dec t (HashNode d) k p = Inr rn \<and> fuel = Suc f
           \<and> u_get dec t f rn k p = Some (Inr (Some v, nn, r))"
  using assms by (auto simp: u_get_Hash split: if_splits option.splits sum.splits nat.splits)

lemma insert_found_frame:
  assumes st_ok: "store_well_formed dec t"
    and deeper: "\<forall>f rn p n1 res. fuel = Suc f \<and> well_formed_h rn \<and> term_key (drop p k) \<and>
                    u_get dec t f rn k p = Some (Inr (Some v, n1, res)) \<longrightarrow>
                    (\<exists>n'. u_insert dec t f rn k p (ValueNode v) = Some (Inr (False, n')))"
  shows "well_formed_h n \<Longrightarrow> term_key (drop p k) \<Longrightarrow>
         u_get dec t fuel n k p = Some (Inr (Some v, n1, res)) \<Longrightarrow>
         \<exists>n'. u_insert dec t fuel n k p (ValueNode v) = Some (Inr (False, n'))
            \<and> (\<not> isHash n \<longrightarrow> n' = n)
            \<and> (\<forall>d. n = HashNode d \<longrightarrow> resolveHash dec t n k p = Inr n')"
proof (induction n arbitrary: p n1 res)
  case NIL
  then show ?case using term_key_pos[of p k] by (simp add: u_get_NIL)
next
  case (HashNode d)
  have p: "p < length k" using HashNode.prems(2) by (rule term_key_pos)
  from u_get_found_Hash[OF _ HashNode.prems(3)] p obtain rn f nn r where
    rs: "resolveHash dec t (HashNode d) k p = Inr rn" and f: "fuel = Suc f"
    and g: "u_get dec t f rn k p = Some (Inr (Some v, nn, r))"
    by auto
  from resolveHash_Inr[OF rs] st_ok have w: "well_formed_h rn"
    unfolding store_well_formed_def by blast
  from deeper f w HashNode.prems(2) g obtain n' where
    "u_insert dec t f rn k p (ValueNode v) = Some (Inr (False, n'))" by blast
  then show ?case using p rs f by (simp add: u_insert_Hash)
next
  case (ShortNode nk c fl)
  have p: "p < length k" using ShortNode.prems(2) by (rule term_key_pos)
  from u_get_found_Short[OF _ ShortNode.prems(3)] p obtain nn r where
    sw: "startsWith k nk p"
    and g: "u_get dec t fuel c k (p + length nk) = Some (Inr (Some v, nn, r))"
    by auto
  from sw p have tk: "take (length nk) (drop p k) = nk" by (simp add: startsWith_iff)
  then have ml: "prefixLen k nk p = length nk" by (simp add: prefixLen_drop common_len_full)
  have split: "drop p k = nk @ drop (p + length nk) k"
    using tk by (metis append_take_drop_id drop_drop add.commute)
  have le: "p + length nk \<le> length k" using sw by (simp add: startsWith_def)
  show ?case
  proof (cases "isValue c")
    case True
    then obtain nd where c: "c = ValueNode nd" by (cases c) auto
    with ShortNode.prems(1) have "term_key nk" by simp
    from term_key_prefix_eq[OF this ShortNode.prems(2) tk] split
    have "drop (p + length nk) k = []" by simp
    then have e: "p + length nk = length k" using le by simp
    from g c le have "nd = v" by (simp add: u_get_Value)
    then have "u_insert dec t fuel c k (p + length nk) (ValueNode v)
                 = Some (Inr (False, ValueNode v))"
      using c e by (simp add: u_insert_end)
    then show ?thesis using p ml by (simp add: u_insert_Short_match)
  next
    case False
    with ShortNode.prems(1) have pl: "plain nk" and w: "well_formed_h c" by auto
    from ShortNode.prems(2) split pl have "term_key (drop (p + length nk) k)"
      by (metis term_key_append_plain)
    from ShortNode.IH[OF w this g] obtain n' where
      "u_insert dec t fuel c k (p + length nk) (ValueNode v) = Some (Inr (False, n'))" by blast
    then show ?thesis using p ml by (simp add: u_insert_Short_match)
  qed
next
  case (FullNode cs fl)
  have p: "p < length k" using FullNode.prems(2) by (rule term_key_pos)
  have split: "drop p k = k ! p # drop (Suc p) k" using p by (rule drop_split)
  have ck: "child_by_key cs k p = child_at cs (unat (k ! p))"
    using p by (simp add: child_by_key_def)
  from u_get_found_Full[OF _ FullNode.prems(3)] p ck obtain nn r where
    g: "u_get dec t fuel (child_at cs (unat (k ! p))) k (Suc p) = Some (Inr (Some v, nn, r))"
    by auto
  have "\<exists>n'. u_insert dec t fuel (child_at cs (unat (k ! p))) k (Suc p) (ValueNode v)
           = Some (Inr (False, n'))"
  proof (cases "drop (Suc p) k = []")
    case True
    with FullNode.prems(2) split have x: "k ! p = 16" by (simp add: term_key_Cons)
    from True p have e: "Suc p = length k" by simp
    from wfh_Full_slot16[OF FullNode.prems(1)] g x e show ?thesis
      by (auto simp: u_get_NIL u_get_Value u_insert_end)
  next
    case False
    with FullNode.prems(2) split have x: "k ! p < 16" and tk: "term_key (drop (Suc p) k)"
      by (simp_all add: term_key_Cons)
    from wfh_Full_child[OF FullNode.prems(1) unat_lt16[OF x]]
    have w: "well_formed_h (child_at cs (unat (k ! p)))"
      and m: "child_at cs (unat (k ! p)) \<in> set cs"
      by simp_all
    from FullNode.IH[OF m w tk g] show ?thesis by blast
  qed
  then show ?case using p ck by (auto simp: u_insert_Full)
qed simp_all

lemma insert_found:
  assumes st_ok: "store_well_formed dec t"
  shows "well_formed_h n \<Longrightarrow> term_key (drop p k) \<Longrightarrow>
         u_get dec t fuel n k p = Some (Inr (Some v, n1, res)) \<Longrightarrow>
         \<exists>n'. u_insert dec t fuel n k p (ValueNode v) = Some (Inr (False, n'))
            \<and> (\<not> isHash n \<longrightarrow> n' = n)
            \<and> (\<forall>d. n = HashNode d \<longrightarrow> resolveHash dec t n k p = Inr n')"
proof (induction fuel arbitrary: n p n1 res)
  case 0
  note pr = this
  have "\<forall>f rn p n1 res. (0 :: nat) = Suc f \<and> well_formed_h rn \<and> term_key (drop p k) \<and>
          u_get dec t f rn k p = Some (Inr (Some v, n1, res)) \<longrightarrow>
          (\<exists>n'. u_insert dec t f rn k p (ValueNode v) = Some (Inr (False, n')))"
    by simp
  from insert_found_frame[OF st_ok this pr] show ?case .
next
  case (Suc f)
  have "\<forall>f' rn p n1 res. Suc f = Suc f' \<and> well_formed_h rn \<and> term_key (drop p k) \<and>
          u_get dec t f' rn k p = Some (Inr (Some v, n1, res)) \<longrightarrow>
          (\<exists>n'. u_insert dec t f' rn k p (ValueNode v) = Some (Inr (False, n')))"
  proof (intro allI impI, elim conjE)
    fix f' rn p' n1' res'
    assume "Suc f = Suc f'" "well_formed_h rn" "term_key (drop p' k)"
      "u_get dec t f' rn k p' = Some (Inr (Some v, n1', res'))"
    then show "\<exists>n'. u_insert dec t f' rn k p' (ValueNode v) = Some (Inr (False, n'))"
      using Suc.IH[of rn p' n1' res'] by auto
  qed
  from insert_found_frame[OF st_ok this Suc.prems] show ?case .
qed


subsection \<open>Insertion and removal keep the shape\<close>

text \<open>
  \<^verbatim>\<open>_insert\<close> and \<^verbatim>\<open>_remove\<close> return well-formed nodes on well-formed nodes, also
  through Hash nodes, when the store holds well-formed nodes. So every trie reached
  from an empty root or from the Hash root of a trie just opened is well-formed.
\<close>

lemma wfh_Full_slots:
  "well_formed_h (FullNode cs fl) \<longleftrightarrow> length cs = 17 \<and> (\<forall>i<17. slot_ok_h i (cs ! i))"
proof -
  have "(\<forall>i<17. slot_ok_h i (cs ! i))
      \<longleftrightarrow> (\<forall>i<16. well_formed_h (cs ! i)) \<and> (isNull (cs ! 16) \<or> isValue (cs ! 16))"
  proof
    assume a: "\<forall>i<17. slot_ok_h i (cs ! i)"
    have "well_formed_h (cs ! i)" if "i < 16" for i
      using a[rule_format, of i] that by (simp add: slot_ok_h_def)
    moreover have "isNull (cs ! 16) \<or> isValue (cs ! 16)"
      using a[rule_format, of 16] by (simp add: slot_ok_h_def)
    ultimately show "(\<forall>i<16. well_formed_h (cs ! i)) \<and> (isNull (cs ! 16) \<or> isValue (cs ! 16))"
      by simp
  next
    assume a: "(\<forall>i<16. well_formed_h (cs ! i)) \<and> (isNull (cs ! 16) \<or> isValue (cs ! 16))"
    show "\<forall>i<17. slot_ok_h i (cs ! i)"
    proof (intro allI impI)
      fix i :: nat assume "i < 17"
      then have "i < 16 \<or> i = 16" by arith
      then show "slot_ok_h i (cs ! i)" using a by (auto simp: slot_ok_h_def)
    qed
  qed
  then show ?thesis by (simp add: wfh_Full)
qed

lemma wfh_Short: "well_formed_h (ShortNode nk v fl) \<longleftrightarrow> key_ok_h nk v"
  by (simp add: key_ok_h_def)

lemma wfh_not_Value: "well_formed_h n \<Longrightarrow> \<not> isValue n"
  by (cases n) auto

lemma slot_ok_h_attach:
  assumes "key_ok_h (y # rest) val"
  shows "slot_ok_h (unat y) (attach t rest val) \<and> unat y < 17"
proof (cases "isValue val")
  case True
  with assms have tk: "term_key (y # rest)" by (simp add: key_ok_h_def)
  show ?thesis
  proof (cases "rest = []")
    case True
    with tk have "y = 16" by (simp add: term_key_Cons)
    with True \<open>isValue val\<close> show ?thesis by (simp add: slot_ok_h_def attach_def)
  next
    case False
    with tk have "y < 16" "term_key rest" by (simp_all add: term_key_Cons)
    with False \<open>isValue val\<close> unat_lt16[of y] show ?thesis
      by (simp add: slot_ok_h_def attach_def)
  qed
next
  case False
  with assms have "y < 16" "plain rest" "well_formed_h val" by (simp_all add: key_ok_h_def)
  with False unat_lt16[of y] show ?thesis
    by (simp add: slot_ok_h_def attach_def)
qed

lemma wfh_Full_empty: "well_formed_h (FullNode (replicate 17 NIL) fl)"
  by (simp add: wfh_Full_slots slot_ok_h_def)

lemma wfh_Full_update:
  "well_formed_h (FullNode cs fl) \<Longrightarrow> i < 17 \<Longrightarrow> slot_ok_h i c \<Longrightarrow>
   well_formed_h (FullNode (set_child cs i c) fl')"
  by (auto simp: wfh_Full_slots set_child_def nth_list_update)

lemma wfh_branch:
  assumes "a < 17" "b < 17" "slot_ok_h a n1" "slot_ok_h b n2"
  shows "well_formed_h (FullNode (set_child (set_child (replicate 17 NIL) a n1) b n2) fl)"
  by (rule wfh_Full_update[OF wfh_Full_update[OF wfh_Full_empty[of fl] assms(1,3)] assms(2,4)])

lemma key_ok_h_suffix:
  assumes "key_ok_h (c @ r) v" "plain c" "r \<noteq> []"
  shows "key_ok_h r v"
  using assms by (auto simp: key_ok_h_def term_key_append_plain)

lemma key_ok_h_append:
  assumes "plain c" "key_ok_h r v"
  shows "key_ok_h (c @ r) v"
  using assms by (auto simp: key_ok_h_def term_key_append_plain)

lemma key_ok_h_prefix_term:
  assumes "key_ok_h nk v0" "term_key ks" "take (length ks) nk = ks"
  shows "length nk = length ks"
proof (cases "isValue v0")
  case True
  with assms(1) have "term_key nk" by (simp add: key_ok_h_def)
  from term_key_prefix_eq[OF assms(2) this assms(3)] show ?thesis by simp
next
  case False
  with assms(1) have "plain nk" by (simp add: key_ok_h_def)
  then have "plain (take (length ks) nk)" by (rule plain_take)
  with assms(2,3) show ?thesis by (simp add: plain_not_term)
qed

lemma insert_split_shape:
  assumes ko: "key_ok_h nk v0" and tk: "term_key (drop p k)"
    and ne: "common_len (drop p k) nk \<noteq> length nk"
  shows "\<exists>res. u_insert dec t fuel (ShortNode nk v0 fl) k p (ValueNode v) = Some (Inr (True, res))
           \<and> well_formed_h res"
proof -
  define ks where "ks = drop p k"
  define ml where "ml = common_len ks nk"
  define c where "c = take ml ks"
  define x where "x = ks ! ml"
  define y where "y = nk ! ml"
  define ksr where "ksr = drop (Suc ml) ks"
  define nkr where "nkr = drop (Suc ml) nk"
  define n1 where "n1 = attach t nkr v0"
  define n2 where "n2 = attach t ksr (ValueNode v)"
  define branch where
    "branch = FullNode (set_child (set_child (replicate 17 NIL) (unat y) n1) (unat x) n2) (flags t)"
  define res where "res = (if ml = 0 then branch else ShortNode c branch (flags t))"
  have tks: "term_key ks" using tk by (simp add: ks_def)
  have p: "p < length k" using tk by (rule term_key_pos)
  have f1: "ml < length nk"
    using ne common_len_le(2)[of ks nk] by (simp add: ml_def ks_def)
  have f2: "ml < length ks"
  proof (rule ccontr)
    assume "\<not> ml < length ks"
    with common_len_le(1)[of ks nk] have e: "ml = length ks" by (simp add: ml_def)
    have "take (length ks) nk = ks"
      using common_len_take[of ks nk] e by (simp add: ml_def)
    from key_ok_h_prefix_term[OF ko tks this] f1 e show False by simp
  qed
  have cnk: "c = take ml nk" using common_len_take[of ks nk] by (simp add: c_def ml_def)
  have pc: "plain c" using term_key_take_plain[OF tks f2] by (simp add: c_def)
  have ks_eq: "ks = c @ x # ksr"
    using id_take_nth_drop[OF f2] by (simp add: c_def x_def ksr_def)
  have nk_eq: "nk = c @ y # nkr"
    using id_take_nth_drop[OF f1] by (simp add: cnk y_def nkr_def)
  have ko1: "key_ok_h (y # nkr) v0"
    using key_ok_h_suffix[of c "y # nkr" v0] ko pc nk_eq by simp
  have ko2: "key_ok_h (x # ksr) (ValueNode v)"
    using tks pc ks_eq term_key_append_plain[of c "x # ksr"] by (simp add: key_ok_h_def)
  have s1: "slot_ok_h (unat y) n1" "unat y < 17"
    using slot_ok_h_attach[OF ko1, of t] by (simp_all add: n1_def)
  have s2: "slot_ok_h (unat x) n2" "unat x < 17"
    using slot_ok_h_attach[OF ko2, of t] by (simp_all add: n2_def)
  have wb: "well_formed_h branch"
    unfolding branch_def by (rule wfh_branch[OF s1(2) s2(2) s1(1) s2(1)])
  have pl: "prefixLen k nk p = ml" by (simp add: prefixLen_drop ml_def ks_def)
  have i1: "u_insert dec t fuel NIL nk (Suc ml) v0 = Some (Inr (True, n1))"
    using f1 by (simp add: u_insert_NIL_any n1_def nkr_def)
  have i2: "u_insert dec t fuel NIL k (Suc (p + ml)) (ValueNode v) = Some (Inr (True, n2))"
    using f2 by (simp add: u_insert_NIL_any n2_def ksr_def ks_def add.commute)
  have kx: "k ! (p + ml) = x" using f2 by (simp add: x_def ks_def)
  have sl: "slice_buf k p (p + ml) = c" by (simp add: slice_buf_def c_def ks_def)
  have pml: "p + ml < length k" using f2 by (simp add: ks_def)
  have ev: "u_insert dec t fuel (ShortNode nk v0 fl) k p (ValueNode v) = Some (Inr (True, res))"
    using ne f1 pml
    by (simp add: u_insert_Short_split[OF p] pl i1 i2 set_child_by_key_def kx sl Let_def
        res_def branch_def shortNode_def y_def)
  have wres: "well_formed_h res"
    using wb pc by (auto simp: res_def wfh_not_Value)
  show ?thesis using ev wres by blast
qed

lemma u_insert_Hash_Inr:
  assumes "p < length k"
    and "u_insert dec t fuel (HashNode dg) k p val = Some (Inr (d, n'))"
  shows "\<exists>rn f d1 nn. resolveHash dec t (HashNode dg) k p = Inr rn \<and> fuel = Suc f
           \<and> u_insert dec t f rn k p val = Some (Inr (d1, nn))
           \<and> n' = (if d1 then nn else rn)"
proof (cases "resolveHash dec t (HashNode dg) k p")
  case (Inl e)
  then show ?thesis using assms by (simp add: u_insert_Hash)
next
  case (Inr rn)
  show ?thesis
  proof (cases fuel)
    case 0
    then show ?thesis using assms Inr by (simp add: u_insert_Hash)
  next
    case (Suc f)
    show ?thesis
    proof (cases "u_insert dec t f rn k p val")
      case None
      then show ?thesis using assms Inr Suc by (simp add: u_insert_Hash)
    next
      case (Some r)
      show ?thesis
      proof (cases r)
        case (Inl e)
        then show ?thesis using assms Inr Suc Some by (simp add: u_insert_Hash)
      next
        case r: (Inr dn)
        obtain d1 nn where dn: "dn = (d1, nn)" by (cases dn)
        show ?thesis using assms Inr Suc Some r dn
          by (cases d1) (simp_all add: u_insert_Hash, blast+)
      qed
    qed
  qed
qed

lemma u_insert_Short_match_Inr:
  assumes "p < length k" "prefixLen k nk p = length nk"
    and "u_insert dec t fuel (ShortNode nk c fl) k p val = Some (Inr (d, n'))"
  shows "\<exists>d1 nn. u_insert dec t fuel c k (p + length nk) val = Some (Inr (d1, nn))
           \<and> n' = (if d1 then shortNode t nk nn else ShortNode nk c fl)"
proof (cases "u_insert dec t fuel c k (p + length nk) val")
  case None
  then show ?thesis using assms by (simp add: u_insert_Short_match)
next
  case (Some r)
  show ?thesis
  proof (cases r)
    case (Inl e)
    then show ?thesis using assms Some by (simp add: u_insert_Short_match)
  next
    case r: (Inr dn)
    obtain d1 nn where dn: "dn = (d1, nn)" by (cases dn)
    show ?thesis using assms Some r dn
      by (cases d1) (simp_all add: u_insert_Short_match, blast+)
  qed
qed

lemma u_insert_Full_Inr:
  assumes "p < length k"
    and "u_insert dec t fuel (FullNode cs fl) k p val = Some (Inr (d, n'))"
  shows "\<exists>d1 nn. u_insert dec t fuel (child_at cs (unat (k ! p))) k (Suc p) val
                     = Some (Inr (d1, nn))
           \<and> n' = (if d1 then FullNode (set_child cs (unat (k ! p)) nn)
                                 (fl\<lparr>fl_hash := None, fl_dirty := True\<rparr>)
                    else FullNode cs fl)"
proof -
  have ck: "child_by_key cs k p = child_at cs (unat (k ! p))"
    using assms(1) by (simp add: child_by_key_def)
  have sk: "\<And>nn. set_child_by_key cs k p nn = set_child cs (unat (k ! p)) nn"
    using assms(1) by (simp add: set_child_by_key_def)
  show ?thesis
  proof (cases "u_insert dec t fuel (child_at cs (unat (k ! p))) k (Suc p) val")
    case None
    then show ?thesis using assms ck by (simp add: u_insert_Full)
  next
    case (Some r)
    show ?thesis
    proof (cases r)
      case (Inl e)
      then show ?thesis using assms Some ck by (simp add: u_insert_Full)
    next
      case r: (Inr dn)
      obtain d1 nn where dn: "dn = (d1, nn)" by (cases dn)
      show ?thesis using assms Some r dn ck sk
        by (cases d1) (simp_all add: u_insert_Full, blast+)
    qed
  qed
qed

lemma insert_shape_frame:
  assumes st_ok: "store_well_formed dec t"
    and deeper: "\<forall>f rn p d n'. fuel = Suc f \<and> well_formed_h rn \<and> term_key (drop p k) \<and>
                    u_insert dec t f rn k p (ValueNode v) = Some (Inr (d, n'))
                    \<longrightarrow> well_formed_h n'"
  shows "well_formed_h n \<Longrightarrow> term_key (drop p k) \<Longrightarrow>
         u_insert dec t fuel n k p (ValueNode v) = Some (Inr (d, n')) \<Longrightarrow> well_formed_h n'"
proof (induction n arbitrary: p d n')
  case NIL
  have p: "p < length k" using NIL.prems(2) by (rule term_key_pos)
  from NIL.prems(3) p have "n' = ShortNode (drop p k) (ValueNode v) (flags t)"
    by (simp add: u_insert_NIL shortNode_def slice_from_def)
  then show ?case using NIL.prems(2) by simp
next
  case (HashNode dg)
  have p: "p < length k" using HashNode.prems(2) by (rule term_key_pos)
  from u_insert_Hash_Inr[OF p HashNode.prems(3)] obtain rn f d1 nn where
    rs: "resolveHash dec t (HashNode dg) k p = Inr rn" and f: "fuel = Suc f"
    and i: "u_insert dec t f rn k p (ValueNode v) = Some (Inr (d1, nn))"
    and r: "n' = (if d1 then nn else rn)"
    by blast
  from resolveHash_Inr[OF rs] st_ok have w: "well_formed_h rn"
    unfolding store_well_formed_def by blast
  from deeper f w HashNode.prems(2) i have "well_formed_h nn" by blast
  with w r show ?case by simp
next
  case (ShortNode nk c fl)
  have p: "p < length k" using ShortNode.prems(2) by (rule term_key_pos)
  have ko: "key_ok_h nk c" using ShortNode.prems(1) by (simp only: wfh_Short)
  show ?case
  proof (cases "common_len (drop p k) nk = length nk")
    case False
    from insert_split_shape[OF ko ShortNode.prems(2) False, of dec t fuel fl v]
      ShortNode.prems(3) show ?thesis by auto
  next
    case True
    then have ml: "prefixLen k nk p = length nk" by (simp add: prefixLen_drop)
    from True have tk: "take (length nk) (drop p k) = nk" by (simp add: common_len_full)
    have split: "drop p k = nk @ drop (p + length nk) k"
      using tk by (metis append_take_drop_id drop_drop add.commute)
    from u_insert_Short_match_Inr[OF p ml ShortNode.prems(3)] obtain d1 nn where
      i: "u_insert dec t fuel c k (p + length nk) (ValueNode v) = Some (Inr (d1, nn))"
      and r: "n' = (if d1 then shortNode t nk nn else ShortNode nk c fl)"
      by blast
    show ?thesis
    proof (cases "isValue c")
      case True
      then obtain nd where c: "c = ValueNode nd" by (cases c) auto
      with ko have tn: "term_key nk" by (simp add: key_ok_h_def)
      from term_key_prefix_eq[OF tn ShortNode.prems(2) tk] split
      have "drop (p + length nk) k = []" by simp
      moreover have "p + length nk \<le> length k"
      proof -
        have "length (take (length nk) (drop p k)) = length nk" using tk by simp
        then show ?thesis using p by simp
      qed
      ultimately have e: "p + length nk = length k" by simp
      from i c e have "nn = ValueNode v" by (simp add: u_insert_end)
      with r tn ShortNode.prems(1) show ?thesis by (auto simp: shortNode_def)
    next
      case False
      with ko have pl: "plain nk" and w: "well_formed_h c" by (simp_all add: key_ok_h_def)
      from ShortNode.prems(2) split pl have "term_key (drop (p + length nk) k)"
        by (metis term_key_append_plain)
      from ShortNode.IH[OF w this i] have wn: "well_formed_h nn" .
      then have "\<not> isValue nn" by (rule wfh_not_Value)
      with r wn pl ShortNode.prems(1) show ?thesis by (auto simp: shortNode_def)
    qed
  qed
next
  case (FullNode cs fl)
  have p: "p < length k" using FullNode.prems(2) by (rule term_key_pos)
  have split: "drop p k = k ! p # drop (Suc p) k" using p by (rule drop_split)
  have ck: "child_by_key cs k p = child_at cs (unat (k ! p))"
    using p by (simp add: child_by_key_def)
  have sk: "\<And>nn. set_child_by_key cs k p nn = set_child cs (unat (k ! p)) nn"
    using p by (simp add: set_child_by_key_def)
  from u_insert_Full_Inr[OF p FullNode.prems(3)] obtain d1 nn where
    i: "u_insert dec t fuel (child_at cs (unat (k ! p))) k (Suc p) (ValueNode v)
          = Some (Inr (d1, nn))"
    and r: "n' = (if d1 then FullNode (set_child cs (unat (k ! p)) nn)
                               (fl\<lparr>fl_hash := None, fl_dirty := True\<rparr>)
                  else FullNode cs fl)"
    by blast
  have so: "slot_ok_h (unat (k ! p)) nn \<and> unat (k ! p) < 17"
  proof (cases "drop (Suc p) k = []")
    case True
    with FullNode.prems(2) split have x: "k ! p = 16" by (simp add: term_key_Cons)
    from True p have e: "Suc p = length k" by simp
    from wfh_Full_slot16[OF FullNode.prems(1)] i x e have "nn = ValueNode v"
      by (auto simp: u_insert_end)
    with x show ?thesis by (simp add: slot_ok_h_def)
  next
    case False
    with FullNode.prems(2) split have x: "k ! p < 16" and tk: "term_key (drop (Suc p) k)"
      by (simp_all add: term_key_Cons)
    from wfh_Full_child[OF FullNode.prems(1) unat_lt16[OF x]]
    have w: "well_formed_h (child_at cs (unat (k ! p)))"
      and m: "child_at cs (unat (k ! p)) \<in> set cs"
      by simp_all
    from FullNode.IH[OF m w tk i] unat_lt16[OF x] show ?thesis
      by (simp add: slot_ok_h_def)
  qed
  show ?case
  proof (cases d1)
    case True
    from so have "well_formed_h (FullNode (set_child cs (unat (k ! p)) nn)
                    (fl\<lparr>fl_hash := None, fl_dirty := True\<rparr>))"
      by (intro wfh_Full_update[OF FullNode.prems(1)]) simp_all
    with r True show ?thesis by simp
  next
    case False
    with r FullNode.prems(1) show ?thesis by simp
  qed
qed simp_all

lemma insert_shape:
  assumes st_ok: "store_well_formed dec t"
  shows "well_formed_h n \<Longrightarrow> term_key (drop p k) \<Longrightarrow>
         u_insert dec t fuel n k p (ValueNode v) = Some (Inr (d, n')) \<Longrightarrow> well_formed_h n'"
proof (induction fuel arbitrary: n p d n')
  case 0
  note pr = this
  have "\<forall>f rn p d n'. (0 :: nat) = Suc f \<and> well_formed_h rn \<and> term_key (drop p k) \<and>
          u_insert dec t f rn k p (ValueNode v) = Some (Inr (d, n')) \<longrightarrow> well_formed_h n'"
    by simp
  from insert_shape_frame[OF st_ok this pr] show ?case .
next
  case (Suc f)
  have "\<forall>f' rn p d n'. Suc f = Suc f' \<and> well_formed_h rn \<and> term_key (drop p k) \<and>
          u_insert dec t f' rn k p (ValueNode v) = Some (Inr (d, n')) \<longrightarrow> well_formed_h n'"
    using Suc.IH by blast
  from insert_shape_frame[OF st_ok this Suc.prems] show ?case .
qed


lemma wfh_Full_defined:
  assumes "well_formed_h (FullNode cs fl)"
  shows "\<forall>j<17. child_at cs j \<noteq> Undefined"
proof (intro allI impI)
  fix j :: nat assume j: "j < 17"
  with assms have "slot_ok_h j (cs ! j)" "length cs = 17" by (simp_all add: wfh_Full_slots)
  then show "child_at cs j \<noteq> Undefined"
    using j by (auto simp: child_at_def slot_ok_h_def split: if_splits)
qed

lemma nibble_of_nat_lt: "i < 16 \<Longrightarrow> (word_of_nat i :: byte) < 16"
  by (simp add: word_less_nat_alt unat_of_nat)

lemma key_ok_h_Cons: "x < 16 \<Longrightarrow> key_ok_h ck cv \<Longrightarrow> key_ok_h (x # ck) cv"
  using key_ok_h_append[of "[x]" ck cv] by simp

lemma key_ok_h_single: "x < 16 \<Longrightarrow> well_formed_h c \<Longrightarrow> key_ok_h [x] c"
  by (simp add: key_ok_h_def wfh_not_Value)

lemma collapse_shape:
  assumes wfF: "well_formed_h (FullNode cs fl)" and st_ok: "store_well_formed dec t"
    and r: "collapse dec t cs fl' k = Some (Inr (d, n'))"
  shows "well_formed_h n'"
proof (cases "\<exists>i. occupied cs = [i]")
  case False
  then have "collapse dec t cs fl' k = Some (Inr (True, FullNode cs fl'))"
    using collapse_not_single[OF wfh_Full_defined[OF wfF]] by blast
  with r have "n' = FullNode cs fl'" by simp
  with wfF show ?thesis by (simp add: wfh_Full)
next
  case True
  then obtain i where occ: "occupied cs = [i]" ..
  from only_slot_occupied[OF occ] have i17: "i < 17" and nn: "child_at cs i \<noteq> NIL"
    by simp_all
  note cs = collapse_single[OF wfh_Full_defined[OF wfF] occ, of dec t fl' k]
  show ?thesis
  proof (cases "i = 16")
    case True
    from wfh_Full_slot16[OF wfF] nn True obtain dd where "child_at cs 16 = ValueNode dd"
      by auto
    with r cs True have "n' = ShortNode [16] (ValueNode dd) (flags t)" by simp
    then show ?thesis by (simp add: term_key_def)
  next
    case False
    with i17 have i16: "i < 16" by simp
    from wfh_Full_child[OF wfF i16] have wc: "well_formed_h (child_at cs i)" by simp
    have x: "(word_of_nat i :: byte) < 16" using i16 by (rule nibble_of_nat_lt)
    have merged: "well_formed_h (ShortNode (word_of_nat i # ck) cv (flags t))"
      if "well_formed_h (ShortNode ck cv cfl)" for ck cv cfl
      using that x key_ok_h_Cons[of "word_of_nat i" ck cv] by (simp only: wfh_Short)
    have kept: "well_formed_h (ShortNode [word_of_nat i] (child_at cs i) (flags t))"
      using x wc key_ok_h_single[of "word_of_nat i" "child_at cs i"] by (simp only: wfh_Short)
    show ?thesis
    proof (cases "child_at cs i")
      case NIL
      with nn show ?thesis by simp
    next
      case (ValueNode dd)
      with wc show ?thesis by simp
    next
      case Undefined
      with wc show ?thesis by simp
    next
      case (ShortNode ck cv cfl)
      with r cs False have e: "n' = ShortNode (word_of_nat i # ck) cv (flags t)"
        by (simp add: resolve_def)
      from wc ShortNode have "well_formed_h (ShortNode ck cv cfl)" by simp
      from merged[OF this] show ?thesis by (simp only: e)
    next
      case (FullNode cs2 fl2)
      with r cs False have e: "n' = ShortNode [word_of_nat i] (child_at cs i) (flags t)"
        by (simp add: resolve_def)
      from kept show ?thesis by (simp only: e)
    next
      case (HashNode dg)
      show ?thesis
      proof (cases "resolveHash dec t (HashNode dg) (concat_buf k (byte (int i))) (length k)")
        case (Inl e)
        with r cs False HashNode show ?thesis by (simp add: resolve_def)
      next
        case (Inr rn)
        from resolveHash_Inr[OF Inr] st_ok have wr: "well_formed_h rn"
          unfolding store_well_formed_def by blast
        show ?thesis
        proof (cases rn)
          case (ShortNode ck cv cfl)
          with r cs False HashNode Inr
          have e: "n' = ShortNode (word_of_nat i # ck) cv (flags t)"
            by (simp add: resolve_def)
          from wr ShortNode have "well_formed_h (ShortNode ck cv cfl)" by simp
          from merged[OF this] show ?thesis by (simp only: e)
        next
          case Undefined
          with wr show ?thesis by simp
        next
          case NIL
          with r cs False HashNode Inr
          have e: "n' = ShortNode [word_of_nat i] (child_at cs i) (flags t)"
            by (simp add: resolve_def)
          from kept show ?thesis by (simp only: e)
        next
          case (ValueNode dd)
          with wr show ?thesis by simp
        next
          case (FullNode cs2 fl2)
          with r cs False HashNode Inr
          have e: "n' = ShortNode [word_of_nat i] (child_at cs i) (flags t)"
            by (simp add: resolve_def)
          from kept show ?thesis by (simp only: e)
        next
          case rh: (HashNode dg2)
          with r cs False HashNode Inr
          have e: "n' = ShortNode [word_of_nat i] (child_at cs i) (flags t)"
            by (simp add: resolve_def)
          from kept show ?thesis by (simp only: e)
        qed
      qed
    qed
  qed
qed

lemma u_remove_Hash_Inr:
  assumes "p < length k"
    and "u_remove dec t fuel (HashNode dg) k p = Some (Inr (d, n'))"
  shows "\<exists>rn f d1 nn. resolveHash dec t (HashNode dg) k p = Inr rn \<and> fuel = Suc f
           \<and> u_remove dec t f rn k p = Some (Inr (d1, nn))
           \<and> n' = (if d1 then nn else rn)"
proof (cases "resolveHash dec t (HashNode dg) k p")
  case (Inl e)
  then show ?thesis using assms by (simp add: u_remove_Hash)
next
  case (Inr rn)
  show ?thesis
  proof (cases fuel)
    case 0
    then show ?thesis using assms Inr by (simp add: u_remove_Hash)
  next
    case (Suc f)
    show ?thesis
    proof (cases "u_remove dec t f rn k p")
      case None
      then show ?thesis using assms Inr Suc by (simp add: u_remove_Hash)
    next
      case (Some r)
      show ?thesis
      proof (cases r)
        case (Inl e)
        then show ?thesis using assms Inr Suc Some by (simp add: u_remove_Hash)
      next
        case r: (Inr dn)
        obtain d1 nn where dn: "dn = (d1, nn)" by (cases dn)
        show ?thesis using assms Inr Suc Some r dn
          by (cases d1) (simp_all add: u_remove_Hash, blast+)
      qed
    qed
  qed
qed

lemma u_remove_Full_Inr:
  assumes "p < length k"
    and "u_remove dec t fuel (FullNode cs fl) k p = Some (Inr (d, n'))"
  shows "\<exists>d1 nn. u_remove dec t fuel (child_at cs (unat (k ! p))) k (Suc p) = Some (Inr (d1, nn))
           \<and> (if d1 then collapse dec t (set_child cs (unat (k ! p)) nn)
                           (fl\<lparr>fl_hash := None, fl_dirty := True\<rparr>) k = Some (Inr (d, n'))
               else n' = FullNode cs fl)"
proof -
  have ck: "child_by_key cs k p = child_at cs (unat (k ! p))"
    using assms(1) by (simp add: child_by_key_def)
  have sk: "\<And>nn. set_child_by_key cs k p nn = set_child cs (unat (k ! p)) nn"
    using assms(1) by (simp add: set_child_by_key_def)
  show ?thesis
  proof (cases "u_remove dec t fuel (child_at cs (unat (k ! p))) k (Suc p)")
    case None
    then show ?thesis using assms ck by (simp add: u_remove_Full)
  next
    case (Some r)
    show ?thesis
    proof (cases r)
      case (Inl e)
      then show ?thesis using assms Some ck by (simp add: u_remove_Full)
    next
      case r: (Inr dn)
      obtain d1 nn where dn: "dn = (d1, nn)" by (cases dn)
      show ?thesis using assms Some r dn ck sk
        by (cases d1) (simp_all add: u_remove_Full, blast+)
    qed
  qed
qed

lemma u_remove_Short_Inr:
  assumes "p < length k" "\<not> prefixLen k nk p < length nk" "prefixLen k nk p \<noteq> length k - p"
    and "u_remove dec t fuel (ShortNode nk c fl) k p = Some (Inr (d, n'))"
  shows "\<exists>d1 nn. u_remove dec t fuel c k (p + length nk) = Some (Inr (d1, nn))
           \<and> n' = (if \<not> d1 then ShortNode nk c fl
                    else case nn of
                           ShortNode nnk nnv nnfl \<Rightarrow> ShortNode (nk @ nnk) nnv (flags t)
                         | _ \<Rightarrow> ShortNode nk nn (flags t))
           \<and> (d1 \<longrightarrow> nn \<noteq> Undefined)"
proof (cases "u_remove dec t fuel c k (p + length nk)")
  case None
  then show ?thesis using assms by (simp add: u_remove_Short Let_def)
next
  case (Some r)
  show ?thesis
  proof (cases r)
    case (Inl e)
    then show ?thesis using assms Some by (simp add: u_remove_Short Let_def)
  next
    case r: (Inr dn)
    obtain d1 nn where dn: "dn = (d1, nn)" by (cases dn)
    show ?thesis
    proof (cases d1)
      case False
      then show ?thesis using assms Some r dn
        by (intro exI[of _ False] exI[of _ nn]) (simp add: u_remove_Short Let_def)
    next
      case True
      then show ?thesis using assms Some r dn
        by (intro exI[of _ True] exI[of _ nn], cases nn)
           (simp_all add: u_remove_Short Let_def shortNode_def concat_buf_def)
    qed
  qed
qed

lemma remove_shape_frame:
  assumes st_ok: "store_well_formed dec t"
    and deeper: "\<forall>f rn p d n'. fuel = Suc f \<and> well_formed_h rn \<and> term_key (drop p k) \<and>
                    u_remove dec t f rn k p = Some (Inr (d, n')) \<longrightarrow> well_formed_h n'"
  shows "well_formed_h n \<Longrightarrow> term_key (drop p k) \<Longrightarrow>
         u_remove dec t fuel n k p = Some (Inr (d, n')) \<Longrightarrow> well_formed_h n'"
proof (induction n arbitrary: p d n')
  case NIL
  have p: "p < length k" using NIL.prems(2) by (rule term_key_pos)
  from NIL.prems(3) p show ?case by (simp add: u_remove_NIL)
next
  case (HashNode dg)
  have p: "p < length k" using HashNode.prems(2) by (rule term_key_pos)
  from u_remove_Hash_Inr[OF p HashNode.prems(3)] obtain rn f d1 nn where
    rs: "resolveHash dec t (HashNode dg) k p = Inr rn" and f: "fuel = Suc f"
    and i: "u_remove dec t f rn k p = Some (Inr (d1, nn))"
    and r: "n' = (if d1 then nn else rn)"
    by blast
  from resolveHash_Inr[OF rs] st_ok have w: "well_formed_h rn"
    unfolding store_well_formed_def by blast
  from deeper f w HashNode.prems(2) i have "well_formed_h nn" by blast
  with w r show ?case by simp
next
  case (ShortNode nk c fl)
  have p: "p < length k" using ShortNode.prems(2) by (rule term_key_pos)
  have ko: "key_ok_h nk c" using ShortNode.prems(1) by (simp only: wfh_Short)
  define ml where "ml = prefixLen k nk p"
  have mle: "ml \<le> length nk" using common_len_le(2)[of "drop p k" nk]
    by (simp add: ml_def prefixLen_drop)
  show ?case
  proof (cases "ml < length nk")
    case True
    with ShortNode.prems(3) p have "n' = ShortNode nk c fl"
      by (simp add: u_remove_Short Let_def ml_def)
    with ShortNode.prems(1) show ?thesis by simp
  next
    case False
    with mle have ml: "ml = length nk" by simp
    show ?thesis
    proof (cases "ml = length k - p")
      case True
      with ShortNode.prems(3) p False have "n' = NIL"
        by (simp add: u_remove_Short Let_def ml_def)
      then show ?thesis by simp
    next
      case ne: False
      from ml have tk: "take (length nk) (drop p k) = nk"
        by (simp add: ml_def prefixLen_drop common_len_full)
      have split: "drop p k = nk @ drop (p + length nk) k"
        using tk by (metis append_take_drop_id drop_drop add.commute)
      have nv: "\<not> isValue c"
      proof
        assume "isValue c"
        with ko have "term_key nk" by (simp add: key_ok_h_def)
        from term_key_prefix_eq[OF this ShortNode.prems(2) tk] have "nk = drop p k" .
        then have "length nk = length k - p" by simp
        with ml ne show False by simp
      qed
      with ko have pl: "plain nk" and w: "well_formed_h c" by (simp_all add: key_ok_h_def)
      from ShortNode.prems(2) split pl have tk2: "term_key (drop (p + length nk) k)"
        by (metis term_key_append_plain)
      from False ne have c1: "\<not> prefixLen k nk p < length nk"
        and c2: "prefixLen k nk p \<noteq> length k - p" by (simp_all add: ml_def)
      from u_remove_Short_Inr[OF p c1 c2 ShortNode.prems(3)] obtain d1 nn where
        i: "u_remove dec t fuel c k (p + length nk) = Some (Inr (d1, nn))"
        and r: "n' = (if \<not> d1 then ShortNode nk c fl
                    else case nn of
                           ShortNode nnk nnv nnfl \<Rightarrow> ShortNode (nk @ nnk) nnv (flags t)
                         | _ \<Rightarrow> ShortNode nk nn (flags t))"
        by blast
      from ShortNode.IH[OF w tk2 i] have wn: "well_formed_h nn" .
      show ?thesis
      proof (cases d1)
        case False
        with r ShortNode.prems(1) show ?thesis by simp
      next
        case True
        show ?thesis
        proof (cases nn)
          case sn: (ShortNode nnk nnv nnfl)
          with wn have "key_ok_h nnk nnv" by (simp only: wfh_Short)
          from key_ok_h_append[OF pl this] have "well_formed_h (ShortNode (nk @ nnk) nnv (flags t))"
            by (simp only: wfh_Short)
          with r True sn show ?thesis by simp
        next
          case NIL
          with r True pl show ?thesis by simp
        next
          case (HashNode dg)
          with r True pl show ?thesis by simp
        next
          case (FullNode cs2 fl2)
          with r True pl wn show ?thesis by simp
        next
          case (ValueNode dd)
          with wn show ?thesis by simp
        next
          case Undefined
          with wn show ?thesis by simp
        qed
      qed
    qed
  qed
next
  case (FullNode cs fl)
  have p: "p < length k" using FullNode.prems(2) by (rule term_key_pos)
  have split: "drop p k = k ! p # drop (Suc p) k" using p by (rule drop_split)
  from u_remove_Full_Inr[OF p FullNode.prems(3)] obtain d1 nn where
    i: "u_remove dec t fuel (child_at cs (unat (k ! p))) k (Suc p) = Some (Inr (d1, nn))"
    and r: "if d1 then collapse dec t (set_child cs (unat (k ! p)) nn)
                         (fl\<lparr>fl_hash := None, fl_dirty := True\<rparr>) k = Some (Inr (d, n'))
            else n' = FullNode cs fl"
    by blast
  have so: "slot_ok_h (unat (k ! p)) nn \<and> unat (k ! p) < 17"
  proof (cases "drop (Suc p) k = []")
    case True
    with FullNode.prems(2) split have x: "k ! p = 16" by (simp add: term_key_Cons)
    from True p have e: "Suc p = length k" by simp
    from wfh_Full_slot16[OF FullNode.prems(1)] i x e have "nn = NIL"
      by (auto simp: u_remove_NIL u_remove_Value)
    with x show ?thesis by (simp add: slot_ok_h_def)
  next
    case False
    with FullNode.prems(2) split have x: "k ! p < 16" and tk: "term_key (drop (Suc p) k)"
      by (simp_all add: term_key_Cons)
    from wfh_Full_child[OF FullNode.prems(1) unat_lt16[OF x]]
    have w: "well_formed_h (child_at cs (unat (k ! p)))"
      and m: "child_at cs (unat (k ! p)) \<in> set cs"
      by simp_all
    from FullNode.IH[OF m w tk i] unat_lt16[OF x] show ?thesis
      by (simp add: slot_ok_h_def)
  qed
  show ?case
  proof (cases d1)
    case True
    from so have "well_formed_h (FullNode (set_child cs (unat (k ! p)) nn) fl)"
      by (intro wfh_Full_update[OF FullNode.prems(1)]) simp_all
    from collapse_shape[OF this st_ok] r True show ?thesis by simp
  next
    case False
    with r FullNode.prems(1) show ?thesis by simp
  qed
qed simp_all

lemma remove_shape:
  assumes st_ok: "store_well_formed dec t"
  shows "well_formed_h n \<Longrightarrow> term_key (drop p k) \<Longrightarrow>
         u_remove dec t fuel n k p = Some (Inr (d, n')) \<Longrightarrow> well_formed_h n'"
proof (induction fuel arbitrary: n p d n')
  case 0
  note pr = this
  have "\<forall>f rn p d n'. (0 :: nat) = Suc f \<and> well_formed_h rn \<and> term_key (drop p k) \<and>
          u_remove dec t f rn k p = Some (Inr (d, n')) \<longrightarrow> well_formed_h n'"
    by simp
  from remove_shape_frame[OF st_ok this pr] show ?case .
next
  case (Suc f)
  have "\<forall>f' rn p d n'. Suc f = Suc f' \<and> well_formed_h rn \<and> term_key (drop p k) \<and>
          u_remove dec t f' rn k p = Some (Inr (d, n')) \<longrightarrow> well_formed_h n'"
    using Suc.IH by blast
  from remove_shape_frame[OF st_ok this Suc.prems] show ?case .
qed


lemma store_well_formed_root [simp]:
  "store_well_formed dec (t\<lparr>root := r\<rparr>) = store_well_formed dec t"
  by (simp add: store_well_formed_def)

lemma insert_trie_shape:
  assumes "well_formed_h (root t)" "store_well_formed dec t"
    and "insert_trie dec fuel t ky v = Some (Inr t')"
  shows "well_formed_h (root t') \<and> store_well_formed dec t'"
proof -
  have tk: "term_key (drop 0 (toNibbles ky))" by (simp add: term_key_toNibbles)
  from assms(3) obtain d rt where
    i: "u_insert dec t fuel (root t) (toNibbles ky) 0 (ValueNode v) = Some (Inr (d, rt))"
    and t': "t' = t\<lparr>root := rt\<rparr>"
    by (auto simp: insert_trie_def valueNode_def split: option.splits sum.splits)
  from insert_shape[OF assms(2,1) tk i] t' assms(2) show ?thesis by simp
qed

lemma remove_trie_shape:
  assumes "well_formed_h (root t)" "store_well_formed dec t"
    and "remove dec fuel t ky = Some (Inr t')"
  shows "well_formed_h (root t') \<and> store_well_formed dec t'"
proof -
  have tk: "term_key (drop 0 (toNibbles ky))" by (simp add: term_key_toNibbles)
  from assms(3) obtain d rt where
    i: "u_remove dec t fuel (root t) (toNibbles ky) 0 = Some (Inr (d, rt))"
    and t': "t' = t\<lparr>root := rt\<rparr>"
    by (auto simp: remove_def split: option.splits sum.splits)
  from remove_shape[OF assms(2,1) tk i] t' assms(2) show ?thesis by simp
qed

lemma run_ops_shape:
  "well_formed_h (root t) \<Longrightarrow> store_well_formed dec t \<Longrightarrow>
   run_ops dec fuel t ops = Some (Inr t') \<Longrightarrow>
   well_formed_h (root t') \<and> store_well_formed dec t'"
proof (induction ops arbitrary: t)
  case Nil
  then show ?case by simp
next
  case (Cons x xs)
  from Cons.prems(3) obtain t1 where
    a: "apply_op dec fuel t x = Some (Inr t1)" and r: "run_ops dec fuel t1 xs = Some (Inr t')"
    by (auto split: option.splits sum.splits)
  have "well_formed_h (root t1) \<and> store_well_formed dec t1"
  proof (cases x)
    case (Insert ky v)
    with a insert_trie_shape[OF Cons.prems(1,2)] show ?thesis by simp
  next
    case (Remove ky)
    with a remove_trie_shape[OF Cons.prems(1,2)] show ?thesis by simp
  qed
  with Cons.IH r show ?case by blast
qed

lemma reachable_shape:
  assumes "root t0 = NIL \<or> isHash (root t0)" "store_well_formed dec t0"
    and "run_ops dec fuel t0 ops = Some (Inr t)"
  shows "well_formed_h (root t) \<and> store_well_formed dec t"
proof -
  from assms(1) have "well_formed_h (root t0)" by (cases "root t0") auto
  from run_ops_shape[OF this assms(2,3)] show ?thesis .
qed

subsection \<open>The second insertion of a pair\<close>

lemma toNibbles_0x12: "toNibbles [0x12] = [1, 2, 16]"
  by (simp add: toNibbles_def)

text \<open>
  Claim C4, as the code has it: at key exhaustion over a Value node \<^verbatim>\<open>_insert\<close>
  returns the new Value and reports a change iff the data differ. In a well-formed
  trie, with or without Hash nodes, over a store of well-formed nodes: wherever
  \<^verbatim>\<open>_get\<close> finds \<open>v\<close> for the key, \<^verbatim>\<open>_insert\<close> of \<open>v\<close> reports no change, at every
  Short, Full and Hash frame, and returns the node itself, except at a Hash node,
  where it returns the node decoded from the store. So for every key \<open>k\<close> that maps
  to \<open>v\<close>, \<^verbatim>\<open>insert(k, v)\<close> leaves the trie exactly as it was when the root is not a
  Hash node, whatever Hash nodes lie below it, and replaces the root by the
  decoded node when the root is a Hash node. Every trie reached by inserts and
  removes from an empty trie or from a trie just opened on a stored root is
  well-formed, so this holds of all of them; and a trie built from the empty trie
  is left as it was for every store and decoder.
\<close>

theorem insert_same_pair:
  "(p = length k \<longrightarrow>
      u_insert dec t fuel (ValueNode nd) k p (ValueNode v) = Some (Inr (nd \<noteq> v, ValueNode v)))
   \<and> (well_formed_h n \<and> store_well_formed dec t \<and> term_key (drop p k)
        \<and> u_get dec t fuel n k p = Some (Inr (Some v, n1, res)) \<longrightarrow>
        (\<exists>n'. u_insert dec t fuel n k p (ValueNode v) = Some (Inr (False, n'))
           \<and> (\<not> isHash n \<longrightarrow> n' = n)
           \<and> (\<forall>d. n = HashNode d \<longrightarrow>
                 (\<exists>st raw. db t = Some st \<and> st d = Some raw \<and> dec raw (hash t) = Inr n'))))
   \<and> (well_formed_h (root t) \<and> store_well_formed dec t
        \<and> get dec fuel t ky = Some (Inr (Some v, t')) \<longrightarrow>
        (\<not> isHash (root t) \<longrightarrow>
           u_insert dec t fuel (root t) (toNibbles ky) 0 (valueNode t v)
             = Some (Inr (False, root t))
           \<and> insert_trie dec fuel t ky v = Some (Inr t))
        \<and> (\<forall>d. root t = HashNode d \<longrightarrow>
              (\<exists>st raw rn. db t = Some st \<and> st d = Some raw \<and> dec raw (hash t) = Inr rn
                 \<and> u_insert dec t fuel (root t) (toNibbles ky) 0 (valueNode t v)
                       = Some (Inr (False, rn))
                 \<and> insert_trie dec fuel t ky v = Some (Inr (t\<lparr>root := rn\<rparr>)))))
   \<and> ((root t0 = NIL \<or> isHash (root t0)) \<and> store_well_formed dec t0
        \<and> run_ops dec fuel t0 ops = Some (Inr t) \<longrightarrow>
        well_formed_h (root t) \<and> store_well_formed dec t
        \<and> (get dec fuel t ky = Some (Inr (Some v, t')) \<longrightarrow>
             (\<not> isHash (root t) \<longrightarrow> insert_trie dec fuel t ky v = Some (Inr t))
             \<and> (\<forall>d. root t = HashNode d \<longrightarrow>
                   (\<exists>st raw rn. db t = Some st \<and> st d = Some raw \<and> dec raw (hash t) = Inr rn
                      \<and> insert_trie dec fuel t ky v = Some (Inr (t\<lparr>root := rn\<rparr>))))))
   \<and> (root t0 = NIL \<and> run_ops dec fuel t0 ops = Some (Inr t)
        \<and> get dec fuel t ky = Some (Inr (Some v, t')) \<longrightarrow>
        u_insert dec t fuel (root t) (toNibbles ky) 0 (valueNode t v) = Some (Inr (False, root t))
        \<and> insert_trie dec fuel t ky v = Some (Inr t))
   \<and> (u_insert dec t fuel n k p (ValueNode v) = Some (Inr (False, n')) \<longrightarrow>
        (\<not> isHash n \<and> n' = n) \<or> (\<exists>d. n = HashNode d \<and> resolveHash dec t n k p = Inr n'))"
proof -
  have c1: "p = length k \<longrightarrow>
      u_insert dec t fuel (ValueNode nd) k p (ValueNode v) = Some (Inr (nd \<noteq> v, ValueNode v))"
    by (simp add: u_insert_end)
  have c2: "\<exists>n'. u_insert dec t fuel n k p (ValueNode v) = Some (Inr (False, n'))
           \<and> (\<not> isHash n \<longrightarrow> n' = n)
           \<and> (\<forall>d. n = HashNode d \<longrightarrow>
                 (\<exists>st raw. db t = Some st \<and> st d = Some raw \<and> dec raw (hash t) = Inr n'))"
    if a: "well_formed_h n \<and> store_well_formed dec t \<and> term_key (drop p k)
        \<and> u_get dec t fuel n k p = Some (Inr (Some v, n1, res))"
    for n k p n1 res
  proof -
    from a have w: "well_formed_h n" and s: "store_well_formed dec t"
      and tk: "term_key (drop p k)"
      and g: "u_get dec t fuel n k p = Some (Inr (Some v, n1, res))" by simp_all
    from insert_found[OF s w tk g] obtain n' where
      i: "u_insert dec t fuel n k p (ValueNode v) = Some (Inr (False, n'))"
      and same: "\<not> isHash n \<longrightarrow> n' = n"
      and rs: "\<forall>d. n = HashNode d \<longrightarrow> resolveHash dec t n k p = Inr n'"
      by blast
    have "\<forall>d. n = HashNode d \<longrightarrow>
            (\<exists>st raw. db t = Some st \<and> st d = Some raw \<and> dec raw (hash t) = Inr n')"
      using rs resolveHash_Inr by blast
    with i same show ?thesis by blast
  qed
  have c3: "(\<not> isHash (root t) \<longrightarrow>
           u_insert dec t fuel (root t) (toNibbles ky) 0 (valueNode t v)
             = Some (Inr (False, root t))
           \<and> insert_trie dec fuel t ky v = Some (Inr t))
        \<and> (\<forall>d. root t = HashNode d \<longrightarrow>
              (\<exists>st raw rn. db t = Some st \<and> st d = Some raw \<and> dec raw (hash t) = Inr rn
                 \<and> u_insert dec t fuel (root t) (toNibbles ky) 0 (valueNode t v)
                       = Some (Inr (False, rn))
                 \<and> insert_trie dec fuel t ky v = Some (Inr (t\<lparr>root := rn\<rparr>))))"
    if a: "well_formed_h (root t) \<and> store_well_formed dec t
        \<and> get dec fuel t ky = Some (Inr (Some v, t'))"
  proof -
    from a obtain n1 res where
      g: "u_get dec t fuel (root t) (toNibbles ky) 0 = Some (Inr (Some v, n1, res))"
      by (auto simp: get_def split: option.splits sum.splits)
    have tk: "term_key (drop 0 (toNibbles ky))" by (simp add: term_key_toNibbles)
    from a have "well_formed_h (root t) \<and> store_well_formed dec t
        \<and> term_key (drop 0 (toNibbles ky))
        \<and> u_get dec t fuel (root t) (toNibbles ky) 0 = Some (Inr (Some v, n1, res))"
      using g tk by simp
    from c2[OF this] obtain n' where
      i: "u_insert dec t fuel (root t) (toNibbles ky) 0 (ValueNode v) = Some (Inr (False, n'))"
      and same: "\<not> isHash (root t) \<longrightarrow> n' = root t"
      and rs: "\<forall>d. root t = HashNode d \<longrightarrow>
                 (\<exists>st raw. db t = Some st \<and> st d = Some raw \<and> dec raw (hash t) = Inr n')"
      by blast
    have it: "insert_trie dec fuel t ky v = Some (Inr (t\<lparr>root := n'\<rparr>))"
      using i by (simp add: insert_trie_def valueNode_def)
    show ?thesis using i it same rs by (auto simp: valueNode_def)
  qed
  have c4: "well_formed_h (root t) \<and> store_well_formed dec t
        \<and> (get dec fuel t ky = Some (Inr (Some v, t')) \<longrightarrow>
             (\<not> isHash (root t) \<longrightarrow> insert_trie dec fuel t ky v = Some (Inr t))
             \<and> (\<forall>d. root t = HashNode d \<longrightarrow>
                   (\<exists>st raw rn. db t = Some st \<and> st d = Some raw \<and> dec raw (hash t) = Inr rn
                      \<and> insert_trie dec fuel t ky v = Some (Inr (t\<lparr>root := rn\<rparr>)))))"
    if a: "(root t0 = NIL \<or> isHash (root t0)) \<and> store_well_formed dec t0
        \<and> run_ops dec fuel t0 ops = Some (Inr t)"
  proof -
    from a have s: "root t0 = NIL \<or> isHash (root t0)" and so: "store_well_formed dec t0"
      and r: "run_ops dec fuel t0 ops = Some (Inr t)" by simp_all
    from reachable_shape[OF s so r] have w: "well_formed_h (root t) \<and> store_well_formed dec t" .
    show ?thesis
    proof (intro conjI impI)
      show "well_formed_h (root t)" "store_well_formed dec t" using w by simp_all
    next
      assume g: "get dec fuel t ky = Some (Inr (Some v, t'))" and nh: "\<not> isHash (root t)"
      from c3 w g nh show "insert_trie dec fuel t ky v = Some (Inr t)" by blast
    next
      assume g: "get dec fuel t ky = Some (Inr (Some v, t'))"
      from c3 w g show "\<forall>d. root t = HashNode d \<longrightarrow>
          (\<exists>st raw rn. db t = Some st \<and> st d = Some raw \<and> dec raw (hash t) = Inr rn
             \<and> insert_trie dec fuel t ky v = Some (Inr (t\<lparr>root := rn\<rparr>)))"
        by blast
    qed
  qed
  have c5: "u_insert dec t fuel (root t) (toNibbles ky) 0 (valueNode t v) = Some (Inr (False, root t))
        \<and> insert_trie dec fuel t ky v = Some (Inr t)"
    if a: "root t0 = NIL \<and> run_ops dec fuel t0 ops = Some (Inr t)
        \<and> get dec fuel t ky = Some (Inr (Some v, t'))"
  proof -
    from a have w0: "well_formed (root t0)" by simp
    from run_ops_ok[OF w0, of dec fuel ops] a have w: "well_formed (root t)" by auto
    from get_step[OF w, of dec fuel ky] a have l: "lookup (root t) (toNibbles ky) = Some v"
      by simp
    from insert_step[OF w, of dec fuel ky v] l
    have "u_insert dec t fuel (root t) (toNibbles ky) 0 (valueNode t v)
            = Some (Inr (False, root t))"
      by auto
    then show ?thesis by (simp add: insert_trie_def)
  qed
  have c6: "u_insert dec t fuel n k p (ValueNode v) = Some (Inr (False, n')) \<longrightarrow>
        (\<not> isHash n \<and> n' = n) \<or> (\<exists>d. n = HashNode d \<and> resolveHash dec t n k p = Inr n')"
    using u_insert_unchanged by blast
  have c2': "well_formed_h n \<and> store_well_formed dec t \<and> term_key (drop p k)
        \<and> u_get dec t fuel n k p = Some (Inr (Some v, n1, res)) \<longrightarrow>
        (\<exists>n'. u_insert dec t fuel n k p (ValueNode v) = Some (Inr (False, n'))
           \<and> (\<not> isHash n \<longrightarrow> n' = n)
           \<and> (\<forall>d. n = HashNode d \<longrightarrow>
                 (\<exists>st raw. db t = Some st \<and> st d = Some raw \<and> dec raw (hash t) = Inr n')))"
    using c2[where n = n and k = k and p = p and ?n1.0 = n1 and res = res] by blast
  have c3': "well_formed_h (root t) \<and> store_well_formed dec t
        \<and> get dec fuel t ky = Some (Inr (Some v, t')) \<longrightarrow>
        (\<not> isHash (root t) \<longrightarrow>
           u_insert dec t fuel (root t) (toNibbles ky) 0 (valueNode t v)
             = Some (Inr (False, root t))
           \<and> insert_trie dec fuel t ky v = Some (Inr t))
        \<and> (\<forall>d. root t = HashNode d \<longrightarrow>
              (\<exists>st raw rn. db t = Some st \<and> st d = Some raw \<and> dec raw (hash t) = Inr rn
                 \<and> u_insert dec t fuel (root t) (toNibbles ky) 0 (valueNode t v)
                       = Some (Inr (False, rn))
                 \<and> insert_trie dec fuel t ky v = Some (Inr (t\<lparr>root := rn\<rparr>))))"
    using c3 by blast
  have c4': "(root t0 = NIL \<or> isHash (root t0)) \<and> store_well_formed dec t0
        \<and> run_ops dec fuel t0 ops = Some (Inr t) \<longrightarrow>
        well_formed_h (root t) \<and> store_well_formed dec t
        \<and> (get dec fuel t ky = Some (Inr (Some v, t')) \<longrightarrow>
             (\<not> isHash (root t) \<longrightarrow> insert_trie dec fuel t ky v = Some (Inr t))
             \<and> (\<forall>d. root t = HashNode d \<longrightarrow>
                   (\<exists>st raw rn. db t = Some st \<and> st d = Some raw \<and> dec raw (hash t) = Inr rn
                      \<and> insert_trie dec fuel t ky v = Some (Inr (t\<lparr>root := rn\<rparr>)))))"
    using c4 by blast
  have c5': "root t0 = NIL \<and> run_ops dec fuel t0 ops = Some (Inr t)
        \<and> get dec fuel t ky = Some (Inr (Some v, t')) \<longrightarrow>
        u_insert dec t fuel (root t) (toNibbles ky) 0 (valueNode t v) = Some (Inr (False, root t))
        \<and> insert_trie dec fuel t ky v = Some (Inr t)"
    using c5 by blast
  show ?thesis
    by (intro conjI) (rule c1, rule c2', rule c3', rule c4', rule c5', rule c6)
qed

theorem insert_same_pair_witness:
  "u_insert demo_dec demo_t1 0 (ValueNode [7]) [1, 2, 16] 3 (ValueNode [7])
       = Some (Inr (False, ValueNode [7]))
   \<and> u_insert demo_dec demo_t1 0 (ValueNode [7]) [1, 2, 16] 3 (ValueNode [8])
       = Some (Inr (True, ValueNode [8]))
   \<and> isHash (root demo_opened2) \<and> store_well_formed demo_dec2 demo_opened2
   \<and> run_ops demo_dec2 2 demo_opened2 [Insert [0x15, 0x12] [7]] = Some (Inr demo_mixed)
   \<and> well_formed_h (root demo_mixed) \<and> store_well_formed demo_dec2 demo_mixed
   \<and> \<not> isHash (root demo_mixed)
   \<and> child_at (demo_hash_children [5]) 5 = HashNode [5]
   \<and> val_of (get demo_dec2 1 demo_mixed [0x15, 0x12]) = Some (Inr (Some [7]))
   \<and> insert_trie demo_dec2 1 demo_mixed [0x15, 0x12] [7] = Some (Inr demo_mixed)
   \<and> well_formed_h (root demo_opened) \<and> store_well_formed demo_dec demo_opened
   \<and> val_of (get demo_dec 1 demo_opened [0x12]) = Some (Inr (Some [7]))
   \<and> insert_trie demo_dec 1 demo_opened [0x12] [7] = Some (Inr (demo_opened\<lparr>root := demo_leaf\<rparr>))
   \<and> root demo_trie = NIL
   \<and> run_ops demo_dec 0 demo_trie [Insert [0x12] [7]] = Some (Inr demo_t1)
   \<and> get demo_dec 0 demo_t1 [0x12] = Some (Inr (Some [7], demo_t1))
   \<and> insert_trie demo_dec 0 demo_t1 [0x12] [7] = Some (Inr demo_t1)"
proof -
  have c1: "u_insert demo_dec demo_t1 0 (ValueNode [7]) [1, 2, 16] 3 (ValueNode [7])
              = Some (Inr (False, ValueNode [7]))"
    using insert_same_pair [where dec = demo_dec and fuel = 0 and t = demo_t1 and v = "[7]"
        and p = 3 and k = "[1, 2, 16]" and nd = "[7]", THEN conjunct1]
    by simp
  have c2: "u_insert demo_dec demo_t1 0 (ValueNode [7]) [1, 2, 16] 3 (ValueNode [8])
              = Some (Inr (True, ValueNode [8]))"
    using insert_same_pair [where dec = demo_dec and fuel = 0 and t = demo_t1 and v = "[8]"
        and p = 3 and k = "[1, 2, 16]" and nd = "[7]", THEN conjunct1]
    by simp
  have wl: "well_formed_h demo_leaf" by code_simp
  have wc: "well_formed_h (FullNode demo_children demo_flags)" by code_simp
  have wb: "well_formed_h demo_branch" by code_simp
  have r0: "isHash (root demo_opened2)" by (simp add: demo_opened2_def)
  have s0: "store_well_formed demo_dec2 demo_opened2"
    using wl wc wb by (auto simp: store_well_formed_def split: if_splits)
  have ro: "run_ops demo_dec2 2 demo_opened2 [Insert [0x15, 0x12] [7]] = Some (Inr demo_mixed)"
  proof -
    have "u_insert demo_dec2 demo_opened2 2 (root demo_opened2) (toNibbles [0x15, 0x12]) 0
            (valueNode demo_opened2 [7]) = Some (Inr (False, demo_branch))"
      by code_simp
    then show ?thesis by (simp add: insert_trie_def demo_mixed_def)
  qed
  obtain tm where m4: "get demo_dec2 1 demo_mixed [0x15, 0x12] = Some (Inr (Some [7], tm))"
  proof -
    have "u_get demo_dec2 demo_mixed 1 (root demo_mixed) (toNibbles [0x15, 0x12]) 0
            = Some (Inr (Some [7],
                 ShortNode [1] (FullNode (set_child (demo_hash_children [5]) 5 demo_leaf)
                                  demo_flags) demo_flags, True))"
      by code_simp
    then show ?thesis using that by (simp add: get_def)
  qed
  have m3: "\<not> isHash (root demo_mixed)" by (simp add: demo_mixed_def demo_branch_def)
  have m1: "well_formed_h (root demo_mixed) \<and> store_well_formed demo_dec2 demo_mixed"
    using insert_same_pair [where dec = demo_dec2 and fuel = 2 and ?t0.0 = demo_opened2
        and ops = "[Insert [0x15, 0x12] [7]]" and t = demo_mixed,
        THEN conjunct2, THEN conjunct2, THEN conjunct2, THEN conjunct1] r0 s0 ro
    by blast
  have m5: "insert_trie demo_dec2 1 demo_mixed [0x15, 0x12] [7] = Some (Inr demo_mixed)"
    using insert_same_pair [where dec = demo_dec2 and fuel = 1 and t = demo_mixed
        and ky = "[0x15, 0x12]" and v = "[7]" and t' = tm,
        THEN conjunct2, THEN conjunct2, THEN conjunct1] m1 m3 m4
    by blast
  have hc: "child_at (demo_hash_children [5]) 5 = HashNode [5]" by code_simp
  have o1: "well_formed_h (root demo_opened)" by (simp add: demo_opened_def)
  have o2: "store_well_formed demo_dec demo_opened"
    using wl by (auto simp: store_well_formed_def split: if_splits)
  obtain tq where o3: "get demo_dec 1 demo_opened [0x12] = Some (Inr (Some [7], tq))"
  proof -
    have "u_get demo_dec demo_opened 1 (root demo_opened) (toNibbles [0x12]) 0
            = Some (Inr (Some [7], demo_leaf, True))"
      by code_simp
    then show ?thesis using that by (simp add: get_def)
  qed
  have o4: "root demo_opened = HashNode [5]" "db demo_opened = Some demo_store"
    "demo_store [5] = Some [1]"
    by (simp_all add: demo_opened_def demo_store_def STATE_KEY_def)
  have o5: "insert_trie demo_dec 1 demo_opened [0x12] [7]
              = Some (Inr (demo_opened\<lparr>root := demo_leaf\<rparr>))"
    using insert_same_pair [where dec = demo_dec and fuel = 1 and t = demo_opened
        and ky = "[0x12]" and v = "[7]" and t' = tq,
        THEN conjunct2, THEN conjunct2, THEN conjunct1] o1 o2 o3 o4
    by auto
  have r: "root demo_trie = NIL" by (simp add: demo_trie_def)
  have o: "run_ops demo_dec 0 demo_trie [Insert [0x12] [7]] = Some (Inr demo_t1)"
    by (simp add: insert_trie_def toNibbles_0x12 u_insert_NIL shortNode_def slice_from_def
        flags_def valueNode_def demo_t1_def demo_trie_def demo_leaf_def demo_flags_def)
  have g: "get demo_dec 0 demo_t1 [0x12] = Some (Inr (Some [7], demo_t1))"
    by (simp add: get_def toNibbles_0x12 u_get_Short u_get_Value startsWith_def
        demo_t1_def demo_leaf_def)
  have c3: "insert_trie demo_dec 0 demo_t1 [0x12] [7] = Some (Inr demo_t1)"
    using insert_same_pair [where ?t0.0 = demo_trie and dec = demo_dec and fuel = 0
        and ops = "[Insert [0x12] [7]]" and t = demo_t1 and ky = "[0x12]" and v = "[7]"
        and t' = demo_t1, THEN conjunct2, THEN conjunct2, THEN conjunct2, THEN conjunct2,
        THEN conjunct1] r o g
    by blast
  have v1: "val_of (get demo_dec2 1 demo_mixed [0x15, 0x12]) = Some (Inr (Some [7]))"
    using m4 by (simp add: val_of_def)
  have v2: "val_of (get demo_dec 1 demo_opened [0x12]) = Some (Inr (Some [7]))"
    using o3 by (simp add: val_of_def)
  show ?thesis
    using c1 c2 r0 s0 ro m1 m3 hc v1 m5 o1 o2 v2 o5 r o g c3 by blast
qed

text \<open>
  The claim as stated fails when the root is a Hash node: the key \<open>0x12\<close> maps to
  \<open>[7]\<close> through the store, and inserting the same pair replaces the Hash root by the
  resolved Short node.
\<close>

theorem insert_same_pair_hash_root_counterexample:
  "val_of (get demo_dec 1 demo_opened [0x12]) = Some (Inr (Some [7]))
   \<and> insert_trie demo_dec 1 demo_opened [0x12] [7] = Some (Inr (demo_opened\<lparr>root := demo_leaf\<rparr>))
   \<and> root (demo_opened\<lparr>root := demo_leaf\<rparr>) \<noteq> root demo_opened"
proof -
  have i: "u_insert demo_dec demo_opened 1 (root demo_opened) (toNibbles [0x12]) 0
             (valueNode demo_opened [7]) = Some (Inr (False, demo_leaf))"
    by code_simp
  have g: "val_of (get demo_dec 1 demo_opened [0x12]) = Some (Inr (Some [7]))"
    by code_simp
  show ?thesis
    using i g by (simp add: insert_trie_def demo_opened_def demo_leaf_def)
qed

end
